theory Spec2Isabelle
  imports
    Main
    "HOL-Library.Multiset"
    "HOL-Library.AList"
    "HOL-Library.Sublist"
    "HOL-Library.Char_ord"
    "HOL-Library.List_Lexorder"
    "HOL-Library.Option_ord"
    "HOL-Library.Product_Lexorder"
begin

section \<open>Data model of \<^verbatim>\<open>state.py\<close>\<close>

text \<open>
  A transition is the tuple \<^verbatim>\<open>(base_state, new_st, inp, out)\<close> of the source, read as
  \<^verbatim>\<open>t[0]\<close>, \<^verbatim>\<open>t[1]\<close>, \<^verbatim>\<open>t[2]\<close>, \<^verbatim>\<open>t[3]\<close>. The synthetic starting
  transition of an error path is a list of three or four entries; \<^verbatim>\<open>Subgraph.out\<close> reads
  its fourth entry only under \<^verbatim>\<open>len(t) == 4 and t[3] is not None\<close>, so the list of three
  entries and the tuple whose fourth entry is \<^verbatim>\<open>None\<close> are both \<open>out = None\<close>.
\<close>

record transition =
  from_state :: string
  to_state :: string
  inp :: string
  out :: "string option"

text \<open>
  What \<^verbatim>\<open>print\<close> writes, one value per statement of the source: the constructor is the
  format string, its arguments are the values formatted into it. \<open>render\<close> below gives the text.
\<close>

datatype line =
    ParseError string
  | GraphOpen
  | RankdirLR
  | ClusterOpen nat
  | ErrorPathLabel string
  | RankdirTB
  | StartLabel string
  | NodeDecl string string
  | EdgeDecl string string string
  | SinkDecl string nat
  | ClusterClose
  | GraphClose

text \<open>The object \<^verbatim>\<open>Subgraph\<close>: its three attributes.\<close>

record subgraph =
  count :: nat
  seen :: "string list"
  nonsink :: "string set"

text \<open>\<^verbatim>\<open>Subgraph.__init__\<close> sets \<open>count\<close>; the other two attributes are set by \<^verbatim>\<open>start\<close>.\<close>

definition Subgraph_init :: subgraph where
  "Subgraph_init = \<lparr>count = 0, seen = [], nonsink = {}\<rparr>"

text \<open>The object together with what has been printed so far.\<close>

type_synonym state = "subgraph \<times> line list"

subsection \<open>Formatting\<close>

definition digit_char :: "nat \<Rightarrow> char" where
  "digit_char d = char_of (48 + d)"

text \<open>\<^verbatim>\<open>"%d" % n\<close> for a number that is never negative.\<close>

function str_nat :: "nat \<Rightarrow> string" where
  "str_nat n = (if n < 10 then [digit_char n] else str_nat (n div 10) @ [digit_char (n mod 10)])"
  by pat_completeness auto
termination
  by (relation "measure id") auto

declare str_nat.simps [simp del]

text \<open>The Python literal \<^verbatim>\<open>"\\n"\<close>: a backslash and the letter n, two characters.\<close>

definition bsn :: string where
  "bsn = [CHR 0x5C, CHR ''n'']"

text \<open>\<^verbatim>\<open>sep.join(xs)\<close>\<close>

fun join :: "string \<Rightarrow> string list \<Rightarrow> string" where
  "join sep [] = []"
| "join sep [x] = x"
| "join sep (x # y # ys) = x @ sep @ join sep (y # ys)"

text \<open>The list \<^verbatim>\<open>unusual\<close>.\<close>

definition unusual :: "string list" where
  "unusual =
    [''BITCOIN_ANCHOR_OTHERSPEND'', ''BITCOIN_ANCHOR_OURCOMMIT_DELAYPASSED'',
     ''BITCOIN_ANCHOR_THEIRSPEND'', ''BITCOIN_ANCHOR_TIMEOUT'', ''BITCOIN_ANCHOR_UNSPENT'',
     ''PKT_ERROR'', ''PKT_CLOSE'', ''CMD_CLOSE'']"

section \<open>The cluster builder: class \<^verbatim>\<open>Subgraph\<close>\<close>

text \<open>
  \<^verbatim>\<open>Subgraph.out(self, t, first)\<close>. The names \<open>ext\<close>, \<open>lbl\<close>, \<open>i\<close> are the
  source's, \<open>oid\<close> is its \<open>o\<close>; \<open>edge_label\<close>, \<open>src_id\<close> and \<open>dst_id\<close> are their values.
\<close>

definition ext_of :: "bool \<Rightarrow> string" where
  "ext_of first = (if first then ''_O'' else [])"

definition edge_label :: "transition \<Rightarrow> string" where
  "edge_label t =
     (case out t of
        None \<Rightarrow> ''<'' @ inp t
      | Some p \<Rightarrow> (''<'' @ inp t) @ bsn @ ''>'' @ p)"

definition src_id :: "nat \<Rightarrow> bool \<Rightarrow> string \<Rightarrow> string" where
  "src_id c first s =
     (let i = s @ ''_'' @ str_nat c @ ext_of first
      in if sublist bsn i then ''_'' @ str_nat c @ ext_of first else i)"

definition dst_id :: "nat \<Rightarrow> string \<Rightarrow> string" where
  "dst_id c s = s @ ''_'' @ str_nat c"

definition edge_of :: "nat \<Rightarrow> bool \<Rightarrow> transition \<Rightarrow> line" where
  "edge_of c first t =
     EdgeDecl (src_id c first (from_state t)) (dst_id c (to_state t)) (edge_label t)"

definition see_node :: "string \<Rightarrow> line \<Rightarrow> state \<Rightarrow> state" where
  "see_node k decl st =
     (case st of (self, printed) \<Rightarrow>
        if k \<notin> set (seen self)
        then (self\<lparr>seen := seen self @ [k]\<rparr>, printed @ [decl])
        else (self, printed))"

definition Subgraph_out :: "transition \<Rightarrow> bool \<Rightarrow> state \<Rightarrow> state" where
  "Subgraph_out t first st =
     (case st of (self, printed) \<Rightarrow>
        let ext = ext_of first;
            i = src_id (count self) first (from_state t);
            oid = dst_id (count self) (to_state t);
            st1 = (self\<lparr>nonsink := insert (from_state t @ ext) (nonsink self)\<rparr>, printed);
            st2 = see_node (from_state t @ ext) (NodeDecl i (from_state t)) st1;
            st3 = see_node (to_state t) (NodeDecl oid (to_state t)) st2
        in (fst st3, snd st3 @ [edge_of (count self) first t]))"

text \<open>The \<^verbatim>\<open>for t in trans\<close> loop inside the worklist loop, for the scanned state \<open>st\<close>.\<close>

fun for_trans :: "bool \<Rightarrow> bool \<Rightarrow> string \<Rightarrow> transition list \<Rightarrow> state \<Rightarrow> state" where
  "for_trans do_nop do_unusual st [] s = s"
| "for_trans do_nop do_unusual st (t # ts) s =
     (if from_state t = to_state t \<and> \<not> do_nop then for_trans do_nop do_unusual st ts s
      else if inp t \<in> set unusual \<and> \<not> do_unusual then for_trans do_nop do_unusual st ts s
      else if st = from_state t then for_trans do_nop do_unusual st ts (Subgraph_out t False s)
      else for_trans do_nop do_unusual st ts s)"

text \<open>One pass of the body of \<^verbatim>\<open>while cur < len(self.seen)\<close>, before \<^verbatim>\<open>cur += 1\<close>.\<close>

definition scan :: "string list \<Rightarrow> transition list \<Rightarrow> bool \<Rightarrow> bool \<Rightarrow> nat \<Rightarrow> state \<Rightarrow> state" where
  "scan start transs do_nop do_unusual cur s =
     (let st = seen (fst s) ! cur
      in if st \<notin> set start then for_trans do_nop do_unusual st transs s else s)"

text \<open>The set \<^verbatim>\<open>states\<close>, collected from both ends of every transition.\<close>

definition states :: "transition list \<Rightarrow> string set" where
  "states transs = fold (\<lambda>t S. insert (to_state t) (insert (from_state t) S)) transs {}"

text \<open>
  The worklist loop \<^verbatim>\<open>while cur < len(self.seen)\<close>. It returns the scan index with the
  state. A pass appends only names that are not yet in the list, all of them states of the
  transition list, so the number of states still missing plus the length of the list does not
  change in a pass, while \<open>cur\<close> grows.
\<close>

function while_cur ::
  "string list \<Rightarrow> transition list \<Rightarrow> bool \<Rightarrow> bool \<Rightarrow> nat \<Rightarrow> state \<Rightarrow> nat \<times> state" where
  "while_cur start transs do_nop do_unusual cur s =
     (if cur < length (seen (fst s))
      then while_cur start transs do_nop do_unusual (cur + 1)
             (scan start transs do_nop do_unusual cur s)
      else (cur, s))"
  by pat_completeness auto
termination
proof (relation "measure (\<lambda>(start, transs, dn, du, cur, s).
         card (states transs - set (seen (fst s))) + length (seen (fst s)) - cur)")
  show "wf (measure (\<lambda>(start, transs, dn, du, cur, s).
         card (states transs - set (seen (fst s))) + length (seen (fst s)) - cur))"
    by simp
next
  fix start transs do_nop do_unusual cur and s :: state
  assume less: "cur < length (seen (fst s))"
  define U where "U = states transs"
  define room where "room = (\<lambda>xs :: string list. card (U - set xs) + length xs)"
  have U: "U = from_state ` set transs \<union> to_state ` set transs"
  proof -
    have "\<And>A. fold (\<lambda>t S. insert (to_state t) (insert (from_state t) S)) transs A
            = A \<union> from_state ` set transs \<union> to_state ` set transs"
      by (induction transs) auto
    then show ?thesis by (simp add: U_def states_def)
  qed
  then have fin: "finite U" by simp
  define add where "add = (\<lambda>(k :: string) xs. if k \<in> set xs then xs else xs @ [k])"
  have snoc: "room (add k xs) = room xs" if "k \<in> U" for k xs
  proof (cases "k \<in> set xs")
    case True
    then show ?thesis by (simp add: add_def)
  next
    case False
    with that have "k \<in> U - set xs" by simp
    moreover have "finite (U - set xs)" using fin by simp
    ultimately have "card (U - set xs) = Suc (card (U - insert k (set xs)))"
      by (metis Diff_insert card_Suc_Diff1)
    then show ?thesis using False by (simp add: room_def add_def)
  qed
  have see: "seen (fst (see_node k d x)) = add k (seen (fst x))" for k d x
    by (simp add: see_node_def add_def split: prod.splits)
  have out1: "room (seen (fst (Subgraph_out t False x))) = room (seen (fst x))"
    if "t \<in> set transs" for t x
  proof -
    have "from_state t \<in> U" "to_state t \<in> U" using that U by auto
    then show ?thesis
      by (cases x) (simp add: Subgraph_out_def Let_def see ext_of_def snoc)
  qed
  have loop: "room (seen (fst (for_trans dn du st ts x))) = room (seen (fst x))"
    if "set ts \<subseteq> set transs" for dn du st ts x
    using that by (induction dn du st ts x rule: for_trans.induct) (simp_all add: out1)
  have "room (seen (fst (scan start transs do_nop do_unusual cur s))) = room (seen (fst s))"
    by (simp add: scan_def Let_def loop)
  moreover have "cur < room (seen (fst s))" using less by (simp add: room_def)
  ultimately show "((start, transs, do_nop, do_unusual, cur + 1, scan start transs do_nop do_unusual cur s),
              (start, transs, do_nop, do_unusual, cur, s))
            \<in> measure (\<lambda>(start, transs, dn, du, cur, s).
                 card (states transs - set (seen (fst s))) + length (seen (fst s)) - cur)"
    by (simp add: room_def U_def)
qed

declare while_cur.simps [simp del]

text \<open>The last loop of \<^verbatim>\<open>Subgraph.start\<close>: \<^verbatim>\<open>for o in self.seen\<close>.\<close>

fun for_sinks :: "string list \<Rightarrow> state \<Rightarrow> state" where
  "for_sinks [] s = s"
| "for_sinks (k # ks) s =
     (if k \<in> nonsink (fst s) then for_sinks ks s
      else for_sinks ks (fst s, snd s @ [SinkDecl k (count (fst s))]))"

text \<open>
  \<^verbatim>\<open>Subgraph.start(self, start_trans, trans, do_nop, do_unusual)\<close>. The global list
  \<^verbatim>\<open>start\<close> that the method reads is its first argument here.
\<close>

definition Subgraph_start ::
  "string list \<Rightarrow> transition \<Rightarrow> transition list \<Rightarrow> bool \<Rightarrow> bool \<Rightarrow> state \<Rightarrow> state" where
  "Subgraph_start start start_trans transs do_nop do_unusual s =
     (let self = (fst s)\<lparr>seen := [], nonsink := {}, count := count (fst s) + 1\<rparr>;
          s1 = Subgraph_out start_trans True (self, snd s);
          s2 = snd (while_cur start transs do_nop do_unusual 1 s1)
      in for_sinks (seen (fst s2)) s2)"

section \<open>The table parser\<close>

text \<open>
  The character classes of the two patterns: \<^verbatim>\<open>[A-Z_]\<close>, and \<^verbatim>\<open>\s\<close>, which on a
  byte string is space, tab, line feed, carriage return, form feed and vertical tab.
\<close>

definition is_name_char :: "char \<Rightarrow> bool" where
  "is_name_char c \<longleftrightarrow> (CHR ''A'' \<le> c \<and> c \<le> CHR ''Z'') \<or> c = CHR ''_''"

definition is_space :: "char \<Rightarrow> bool" where
  "is_space c \<longleftrightarrow> c \<in> set [CHR '' '', CHR 0x09, CHR 0x0A, CHR 0x0D, CHR 0x0C, CHR 0x0B]"

text \<open>
  \<^verbatim>\<open>re_state.match(l)\<close> for \<^verbatim>\<open>^([A-Z_]+):$\<close>, returning group 1. The name is the longest
  run of name characters, since the colon is not one; \<^verbatim>\<open>$\<close> matches at the end of the line
  and before a line feed that ends it.
\<close>

definition re_state_match :: "string \<Rightarrow> string option" where
  "re_state_match l =
     (let g1 = takeWhile is_name_char l;
          r1 = dropWhile is_name_char l
      in if g1 \<noteq> [] \<and> (r1 = '':'' \<or> r1 = '':\<newline>'') then Some g1 else None)"

text \<open>
  \<^verbatim>\<open>re_trans.match(l)\<close> for
  \<^verbatim>\<open>^\s+([A-Z_]+)\s*->\s*([A-Z_]+)(\s+[(]([A-Z_]+)[)])?\s*$\<close>, returning groups 1, 2 and 4.
  Name characters, white space, the arrow and the parentheses are disjoint classes, so every
  repetition takes its longest run and no other split of the line can match. Group 4 is
  \<^verbatim>\<open>None\<close> when the optional group takes no part; what follows the new state is then white
  space only. Lemma \<open>re_trans_match_iff\<close> below relates the function to the shape of the lines
  that the pattern describes.
\<close>

definition re_trans_match :: "string \<Rightarrow> (string \<times> string \<times> string option) option" where
  "re_trans_match l =
     (let r1 = dropWhile is_space l;
          g1 = takeWhile is_name_char r1;
          r2 = dropWhile is_space (dropWhile is_name_char r1)
      in if takeWhile is_space l = [] \<or> g1 = [] \<or> \<not> prefix ''->'' r2 then None
         else
           let r3 = dropWhile is_space (drop 2 r2);
               g2 = takeWhile is_name_char r3;
               r4 = dropWhile is_name_char r3;
               r5 = dropWhile is_space r4
           in if g2 = [] then None
              else if r5 = [] then Some (g1, g2, None)
              else
                let g4 = takeWhile is_name_char (drop 1 r5);
                    r6 = dropWhile is_name_char (drop 1 r5)
                in if takeWhile is_space r4 \<noteq> [] \<and> prefix ''('' r5 \<and> g4 \<noteq> [] \<and>
                      prefix '')'' r6 \<and> dropWhile is_space (drop 1 r6) = []
                   then Some (g1, g2, Some g4)
                   else None)"

text \<open>
  The tuple \<^verbatim>\<open>(base_state, new_st, inp, out)\<close> as the parser appends it: \<^verbatim>\<open>base_state\<close>
  is \<^verbatim>\<open>None\<close> until the first state line.
\<close>

type_synonym parsed = "string option \<times> string \<times> string \<times> string option"

text \<open>
  The loop \<^verbatim>\<open>for l in open("STATES").readlines()\<close> over the lines, with the variables
  \<^verbatim>\<open>base_state\<close> and \<^verbatim>\<open>trans\<close> and what has been printed.
\<close>

fun parse_lines ::
  "string list \<Rightarrow> string option \<Rightarrow> parsed list \<Rightarrow> line list
     \<Rightarrow> string option \<times> parsed list \<times> line list" where
  "parse_lines [] base_state transs printed = (base_state, transs, printed)"
| "parse_lines (l # ls) base_state transs printed =
     (case re_state_match l of
        Some g1 \<Rightarrow> parse_lines ls (Some g1) transs printed
      | None \<Rightarrow>
          (case re_trans_match l of
             Some (inp', new_st, out') \<Rightarrow>
               parse_lines ls base_state (transs @ [(base_state, new_st, inp', out')]) printed
           | None \<Rightarrow> parse_lines ls base_state transs (printed @ [ParseError l])))"

text \<open>\<^verbatim>\<open>readlines()\<close>: every line keeps its line feed; the last one may have none.\<close>

fun lines_from :: "string \<Rightarrow> string \<Rightarrow> string list" where
  "lines_from cur [] = (if cur = [] then [] else [cur])"
| "lines_from cur (c # cs) =
     (if c = CHR 0x0A then (cur @ [c]) # lines_from [] cs else lines_from (cur @ [c]) cs)"

definition readlines :: "string \<Rightarrow> string list" where
  "readlines content = lines_from [] content"

section \<open>The top level\<close>

datatype error = TypeError | KeyError

text \<open>
  Lines 27 to 32 evaluate \<^verbatim>\<open>"INIT" in s\<close> for every member of \<^verbatim>\<open>states\<close>, which raises
  \<^verbatim>\<open>TypeError\<close> when a transition has \<^verbatim>\<open>None\<close> as its first entry. Otherwise every
  first entry is a string, and the tuples are the transitions the rest of the program reads.
\<close>

fun typed :: "parsed list \<Rightarrow> transition list option" where
  "typed [] = Some []"
| "typed ((None, new_st, i, ou) # ps) = None"
| "typed ((Some b, new_st, i, ou) # ps) =
     map_option ((#) \<lparr>from_state = b, to_state = new_st, inp = i, out = ou\<rparr>) (typed ps)"

text \<open>The list \<^verbatim>\<open>start\<close>.\<close>

definition start_states :: "transition list \<Rightarrow> string list" where
  "start_states transs =
     sorted_list_of_set (Set.filter (\<lambda>s. sublist ''INIT'' s \<or> sublist ''NORMAL'' s) (states transs))"

text \<open>
  The dictionary \<^verbatim>\<open>res\<close> of one unusual input \<open>u\<close>, as an association list with one
  entry for each key.
\<close>

type_synonym key = "string \<times> string option"

fun for_res :: "string \<Rightarrow> transition list \<Rightarrow> (key \<times> string list) list \<Rightarrow> (key \<times> string list) list" where
  "for_res u [] res = res"
| "for_res u (start_trans # ts) res =
     (if inp start_trans \<noteq> u then for_res u ts res
      else
        let pkt = out start_trans;
            k = (to_state start_trans, pkt);
            res1 = (if map_of res k = None then AList.update k [] res else res)
        in for_res u ts (AList.map_entry k (\<lambda>v. v @ [from_state start_trans]) res1))"

text \<open>
  The list \<^verbatim>\<open>["\\n".join(sorted(res[s,p])), s, u]\<close>, with \<open>p\<close> appended when it is not
  \<^verbatim>\<open>None\<close>.
\<close>

definition error_start :: "string \<Rightarrow> key \<Rightarrow> string list \<Rightarrow> transition" where
  "error_start u k froms =
     \<lparr>from_state = join bsn (sort froms), to_state = fst k, inp = u, out = snd k\<rparr>"

text \<open>\<^verbatim>\<open>for s, p in sorted(res.keys())\<close>; the lookup \<^verbatim>\<open>res[s,p]\<close> raises on a missing key.\<close>

fun for_keys ::
  "string list \<Rightarrow> transition list \<Rightarrow> string \<Rightarrow> (key \<times> string list) list \<Rightarrow> key list \<Rightarrow> state
     \<Rightarrow> error + state" where
  "for_keys start transs u res [] s = Inr s"
| "for_keys start transs u res (k # ks) s =
     (case map_of res k of
        None \<Rightarrow> Inl KeyError
      | Some froms \<Rightarrow>
          for_keys start transs u res ks
            (Subgraph_start start (error_start u k froms) transs False False s))"

text \<open>The body of \<^verbatim>\<open>for u in unusual\<close>, on the cluster counter and the state.\<close>

definition error_path ::
  "string list \<Rightarrow> transition list \<Rightarrow> string \<Rightarrow> nat \<times> state \<Rightarrow> error + nat \<times> state" where
  "error_path start transs u cs =
     (let res = for_res u transs [];
          cluster_cnt = fst cs;
          s = snd cs
      in if res = [] then Inr cs
         else
           let cluster_cnt = cluster_cnt + 1;
               s1 = (fst s, snd s @ [ClusterOpen cluster_cnt, ErrorPathLabel u, RankdirTB])
           in case for_keys start transs u res (sort (map fst res)) s1 of
                Inl e \<Rightarrow> Inl e
              | Inr s2 \<Rightarrow> Inr (cluster_cnt, (fst s2, snd s2 @ [ClusterClose])))"

fun for_unusual ::
  "string list \<Rightarrow> transition list \<Rightarrow> string list \<Rightarrow> nat \<times> state \<Rightarrow> error + nat \<times> state" where
  "for_unusual start transs [] cs = Inr cs"
| "for_unusual start transs (u # us) cs =
     (case error_path start transs u cs of
        Inl e \<Rightarrow> Inl e
      | Inr cs' \<Rightarrow> for_unusual start transs us cs')"

text \<open>The inner loop \<^verbatim>\<open>for start_trans in trans\<close> of a start state \<open>s\<close>.\<close>

fun for_start_trans ::
  "string list \<Rightarrow> transition list \<Rightarrow> string \<Rightarrow> transition list \<Rightarrow> state \<Rightarrow> state" where
  "for_start_trans start transs s [] st = st"
| "for_start_trans start transs s (start_trans # ts) st =
     (if from_state start_trans \<noteq> s then for_start_trans start transs s ts st
      else if inp start_trans \<in> set unusual then for_start_trans start transs s ts st
      else for_start_trans start transs s ts
             (Subgraph_start start start_trans transs False False st))"

text \<open>\<^verbatim>\<open>for s in start\<close>\<close>

fun for_start :: "string list \<Rightarrow> transition list \<Rightarrow> string list \<Rightarrow> nat \<times> state \<Rightarrow> nat \<times> state" where
  "for_start start transs [] cs = cs"
| "for_start start transs (s # ss) cs =
     (let cluster_cnt = fst cs + 1;
          st = (fst (snd cs), snd (snd cs) @ [ClusterOpen cluster_cnt, StartLabel s]);
          st1 = for_start_trans start transs s transs st
      in for_start start transs ss (cluster_cnt, (fst st1, snd st1 @ [ClusterClose])))"

text \<open>
  The program on the lines of \<^verbatim>\<open>STATES\<close>: what it prints, or the exception that ends it with
  what it had printed by then.
\<close>

definition main :: "string list \<Rightarrow> error \<times> line list + line list" where
  "main ls =
     (case parse_lines ls None [] [] of (base_state, ptrans, printed) \<Rightarrow>
        (case typed ptrans of
           None \<Rightarrow> Inl (TypeError, printed)
         | Some transs \<Rightarrow>
             let start = start_states transs;
                 sg = Subgraph_init;
                 cluster_cnt = 0;
                 printed1 = printed @ [GraphOpen, RankdirLR]
             in (case for_unusual start transs unusual (cluster_cnt, (sg, printed1)) of
                   Inl e \<Rightarrow> Inl (e, printed1)
                 | Inr cs \<Rightarrow> Inr (snd (snd (for_start start transs start cs)) @ [GraphClose]))))"

text \<open>The text of a printed line.\<close>

fun render :: "line \<Rightarrow> string" where
  "render (ParseError l) = ''ERROR: could not parse '' @ l"
| "render GraphOpen = ''digraph lightning {''"
| "render RankdirLR = '' rankdir=LR;''"
| "render (ClusterOpen n) = '' subgraph cluster_'' @ str_nat n @ '' {''"
| "render (ErrorPathLabel u) = ''   label = '' @ [CHR 0x22] @ ''error path '' @ u @ [CHR 0x22]"
| "render RankdirTB = ''   rankdir=TB;''"
| "render (StartLabel s) = ''   label = '' @ [CHR 0x22] @ s @ [CHR 0x22]"
| "render (NodeDecl i l) = '' '' @ i @ '' [label='' @ [CHR 0x22] @ l @ [CHR 0x22] @ ''];''"
| "render (EdgeDecl i oid lbl) =
     ''   '' @ i @ '' -> '' @ oid @ '' [label='' @ [CHR 0x22] @ lbl @ [CHR 0x22] @ ''];''"
| "render (SinkDecl k n) = '' '' @ k @ ''_'' @ str_nat n @ '' [color=coral, style=filled];''"
| "render ClusterClose = '' }''"
| "render GraphClose = ''}''"

section \<open>Notions for stating the properties\<close>

text \<open>
  \<open>add_new\<close> is the guarded append of \<^verbatim>\<open>Subgraph.out\<close>. \<open>emits\<close> is the condition under
  which the worklist loop passes a transition to \<^verbatim>\<open>out\<close> while it scans \<open>st\<close>, and
  \<open>expands\<close> lists the transitions it passes for \<open>st\<close>, in the order of the transition list.
  \<open>steps L s s'\<close> relates the state before and after \<^verbatim>\<open>out\<close> has been called, with
  \<open>first\<close> false, on the transitions \<open>L\<close> in turn.
\<close>

definition add_new :: "string \<Rightarrow> string list \<Rightarrow> string list" where
  "add_new k xs = (if k \<in> set xs then xs else xs @ [k])"

fun is_edge :: "line \<Rightarrow> bool" where
  "is_edge (EdgeDecl i oid lbl) = True"
| "is_edge l = False"

fun is_node :: "line \<Rightarrow> bool" where
  "is_node (NodeDecl i l) = True"
| "is_node l = False"

fun is_sink :: "line \<Rightarrow> bool" where
  "is_sink (SinkDecl k n) = True"
| "is_sink l = False"

definition node_decl :: "nat \<Rightarrow> string \<Rightarrow> line" where
  "node_decl c k = NodeDecl (dst_id c k) k"

definition emits :: "bool \<Rightarrow> bool \<Rightarrow> string \<Rightarrow> transition \<Rightarrow> bool" where
  "emits do_nop do_unusual st t \<longleftrightarrow>
     \<not> (from_state t = to_state t \<and> \<not> do_nop) \<and>
     \<not> (inp t \<in> set unusual \<and> \<not> do_unusual) \<and> st = from_state t"

definition expands :: "string list \<Rightarrow> transition list \<Rightarrow> bool \<Rightarrow> bool \<Rightarrow> string \<Rightarrow> transition list" where
  "expands start transs do_nop do_unusual st =
     (if st \<in> set start then [] else filter (emits do_nop do_unusual st) transs)"

definition steps :: "transition list \<Rightarrow> state \<Rightarrow> state \<Rightarrow> bool" where
  "steps L s s' \<longleftrightarrow>
     count (fst s') = count (fst s) \<and>
     nonsink (fst s') = nonsink (fst s) \<union> from_state ` set L \<and>
     (\<exists>Z X. seen (fst s') = seen (fst s) @ Z \<and> snd s' = snd s @ X \<and>
        set Z \<subseteq> to_state ` set L \<and> to_state ` set L \<subseteq> set (seen (fst s')) \<and>
        (distinct (seen (fst s)) \<longrightarrow> distinct (seen (fst s'))) \<and>
        filter is_edge X = map (edge_of (count (fst s)) False) L \<and>
        filter is_node X = map (node_decl (count (fst s))) Z \<and>
        filter is_sink X = [])"

definition origin_key :: "transition \<Rightarrow> string" where
  "origin_key start_trans = from_state start_trans @ ''_O''"

definition expanded :: "string list \<Rightarrow> transition list \<Rightarrow> bool \<Rightarrow> bool \<Rightarrow> string list \<Rightarrow> transition list" where
  "expanded start transs do_nop do_unusual sn =
     concat (map (expands start transs do_nop do_unusual) (tl sn))"

text \<open>
  Example inputs. \<open>tr b i n ou\<close> is the transition that the line \<^verbatim>\<open>i -> n (ou)\<close> under the
  state line \<^verbatim>\<open>b:\<close> stands for. \<open>ex_trans\<close> is a table of three transitions, one of them
  a self-loop.
\<close>

definition tr :: "string \<Rightarrow> string \<Rightarrow> string \<Rightarrow> string option \<Rightarrow> transition" where
  "tr b i n ou = \<lparr>from_state = b, to_state = n, inp = i, out = ou\<rparr>"

definition ex_trans :: "transition list" where
  "ex_trans =
     [tr ''A'' ''INPUT_X'' ''B'' None, tr ''B'' ''INPUT_Y'' ''B'' None,
      tr ''B'' ''INPUT_Z'' ''C'' None]"

text \<open>
  Two calls of \<^verbatim>\<open>Subgraph.start\<close> on that table with \<open>A\<close> as the only start state: from
  the transition out of \<open>A\<close>, and from the self-loop.
\<close>

definition ex_cluster :: state where
  "ex_cluster =
     Subgraph_start [''A''] (tr ''A'' ''INPUT_X'' ''B'' None) ex_trans False False (Subgraph_init, [])"

definition ex_loop_cluster :: state where
  "ex_loop_cluster =
     Subgraph_start [''A''] (tr ''B'' ''INPUT_Y'' ''B'' None) ex_trans False False (Subgraph_init, [])"

text \<open>
  A table in which a start state, \<open>INIT_O\<close>, has the name that the origin node of another
  start state, \<open>INIT\<close>, gets as its key: the lines of the file, the transitions they stand
  for, and the cluster of the transition out of \<open>INIT\<close>.
\<close>

definition collide_lines :: "string list" where
  "collide_lines = [''INIT:\<newline>'', ''   A -> X\<newline>'', ''X:\<newline>'', ''   B -> INIT_O\<newline>'']"

definition collide_trans :: "transition list" where
  "collide_trans = [tr ''INIT'' ''A'' ''X'' None, tr ''X'' ''B'' ''INIT_O'' None]"

definition collide_cluster :: state where
  "collide_cluster =
     Subgraph_start [''INIT'', ''INIT_O''] (tr ''INIT'' ''A'' ''X'' None) collide_trans False False
       (Subgraph_init, [])"

text \<open>
  Two states that both go to \<open>CLOSED\<close> on \<open>PKT_ERROR\<close>, and the cluster of the start
  transition that the top level builds for that group.
\<close>

definition err_trans :: "transition list" where
  "err_trans = [tr ''X'' ''PKT_ERROR'' ''CLOSED'' None, tr ''Y'' ''PKT_ERROR'' ''CLOSED'' None]"

definition err_cluster :: state where
  "err_cluster =
     Subgraph_start [] (error_start ''PKT_ERROR'' (''CLOSED'', None) [''X'', ''Y'']) err_trans
       False False (Subgraph_init, [])"

text \<open>
  A line is \<open>unmatched\<close> when neither pattern matches it. \<open>base_after b ls\<close> is the value of
  \<^verbatim>\<open>base_state\<close> after the lines \<open>ls\<close>, starting from \<open>b\<close>.
\<close>

definition unmatched :: "string \<Rightarrow> bool" where
  "unmatched l \<longleftrightarrow> re_state_match l = None \<and> re_trans_match l = None"

fun base_after :: "string option \<Rightarrow> string list \<Rightarrow> string option" where
  "base_after b [] = b"
| "base_after b (l # ls) =
     base_after (case re_state_match l of None \<Rightarrow> b | Some g1 \<Rightarrow> Some g1) ls"

text \<open>A file of a state line and a transition line with an output.\<close>

definition ex_lines :: "string list" where
  "ex_lines = [''INIT:\<newline>'', ''   A -> X (PKT_OPEN)\<newline>'']"

text \<open>
  The notions of the specification for the error paths of an unusual input \<open>u\<close>. The key of a
  transition is its pair of resulting state and output; \<open>origins u k transs\<close> lists the
  from-states of the transitions on \<open>u\<close> with key \<open>k\<close>, one entry for each transition, in the
  order of the table; \<open>group_start u transs k\<close> is the start transition of the group of \<open>k\<close>,
  from the joined, sorted origins to the resulting state. \<open>dup_trans\<close> is a table that holds
  the same transition twice.
\<close>

definition group_key :: "transition \<Rightarrow> key" where
  "group_key t = (to_state t, out t)"

definition origins :: "string \<Rightarrow> key \<Rightarrow> transition list \<Rightarrow> string list" where
  "origins u k transs = map from_state (filter (\<lambda>t. inp t = u \<and> group_key t = k) transs)"

definition group_start :: "string \<Rightarrow> transition list \<Rightarrow> key \<Rightarrow> transition" where
  "group_start u transs k =
     \<lparr>from_state = join bsn (sort (origins u k transs)), to_state = fst k, inp = u, out = snd k\<rparr>"

definition dup_trans :: "transition list" where
  "dup_trans = [tr ''X'' ''PKT_ERROR'' ''CLOSED'' None, tr ''X'' ''PKT_ERROR'' ''CLOSED'' None]"

text \<open>
  The states that the expansion of a start transition reaches, following section 4.2 of the
  specification: the destination of the start transition, and the destination of every
  transition that leaves a reached state which is not a start state, self-loops and unusual
  inputs left out unless their flag is set. A destination whose name is the key of the origin
  node is not counted: that string is in \<open>seen\<close> from the first call of \<^verbatim>\<open>out\<close> on.
\<close>

inductive_set frontier ::
  "string list \<Rightarrow> transition list \<Rightarrow> bool \<Rightarrow> bool \<Rightarrow> transition \<Rightarrow> string set"
  for start :: "string list" and transs :: "transition list"
    and do_nop :: bool and do_unusual :: bool and start_trans :: transition
where
  reached_first:
    "to_state start_trans \<noteq> from_state start_trans @ ''_O'' \<Longrightarrow>
     to_state start_trans \<in> frontier start transs do_nop do_unusual start_trans"
| reached_next:
    "st \<in> frontier start transs do_nop do_unusual start_trans \<Longrightarrow>
     st \<notin> set start \<Longrightarrow> t \<in> set transs \<Longrightarrow> from_state t = st \<Longrightarrow>
     from_state t \<noteq> to_state t \<or> do_nop \<Longrightarrow>
     inp t \<notin> set unusual \<or> do_unusual \<Longrightarrow>
     to_state t \<noteq> from_state start_trans @ ''_O'' \<Longrightarrow>
     to_state t \<in> frontier start transs do_nop do_unusual start_trans"

section \<open>The effect of \<^verbatim>\<open>Subgraph.out\<close> and of the worklist loop\<close>

lemma is_edge_edge_of [simp]: "is_edge (edge_of c f t)" "\<not> is_node (edge_of c f t)" "\<not> is_sink (edge_of c f t)"
  by (simp_all add: edge_of_def)

lemma is_node_decl [simp]: "is_node (node_decl c k)" "\<not> is_edge (node_decl c k)" "\<not> is_sink (node_decl c k)"
  by (simp_all add: node_decl_def)

lemma seen_see_node: "seen (fst (see_node k d s)) = add_new k (seen (fst s))"
  by (simp add: see_node_def add_new_def split: prod.splits)

lemma count_see_node: "count (fst (see_node k d s)) = count (fst s)"
  by (simp add: see_node_def split: prod.splits)

lemma nonsink_see_node: "nonsink (fst (see_node k d s)) = nonsink (fst s)"
  by (simp add: see_node_def split: prod.splits)

lemma printed_see_node:
  "snd (see_node k d s) = snd s @ (if k \<in> set (seen (fst s)) then [] else [d])"
  by (simp add: see_node_def split: prod.splits)

lemma count_out [simp]: "count (fst (Subgraph_out t f s)) = count (fst s)"
  by (cases s) (simp add: Subgraph_out_def Let_def count_see_node)

lemma nonsink_out [simp]:
  "nonsink (fst (Subgraph_out t f s)) = insert (from_state t @ ext_of f) (nonsink (fst s))"
  by (cases s) (simp add: Subgraph_out_def Let_def nonsink_see_node)

lemma seen_out:
  "seen (fst (Subgraph_out t f s)) =
     add_new (to_state t) (add_new (from_state t @ ext_of f) (seen (fst s)))"
  by (cases s) (simp add: Subgraph_out_def Let_def seen_see_node)

lemma printed_out:
  "snd (Subgraph_out t f s) =
     snd s
     @ (if from_state t @ ext_of f \<in> set (seen (fst s)) then []
        else [NodeDecl (src_id (count (fst s)) f (from_state t)) (from_state t)])
     @ (if to_state t \<in> set (add_new (from_state t @ ext_of f) (seen (fst s))) then []
        else [node_decl (count (fst s)) (to_state t)])
     @ [edge_of (count (fst s)) f t]"
  by (cases s)
     (simp add: Subgraph_out_def Let_def printed_see_node seen_see_node node_decl_def)

lemma steps_refl: "steps [] s s"
  by (simp add: steps_def)

lemma steps_trans:
  assumes "steps L1 s s1" "steps L2 s1 s2"
  shows "steps (L1 @ L2) s s2"
proof -
  from assms(1) obtain Z1 X1 where 1:
    "count (fst s1) = count (fst s)" "nonsink (fst s1) = nonsink (fst s) \<union> from_state ` set L1"
    "seen (fst s1) = seen (fst s) @ Z1" "snd s1 = snd s @ X1" "set Z1 \<subseteq> to_state ` set L1"
    "to_state ` set L1 \<subseteq> set (seen (fst s1))"
    "distinct (seen (fst s)) \<longrightarrow> distinct (seen (fst s1))"
    "filter is_edge X1 = map (edge_of (count (fst s)) False) L1"
    "filter is_node X1 = map (node_decl (count (fst s))) Z1" "filter is_sink X1 = []"
    unfolding steps_def by blast
  from assms(2) obtain Z2 X2 where 2:
    "count (fst s2) = count (fst s1)" "nonsink (fst s2) = nonsink (fst s1) \<union> from_state ` set L2"
    "seen (fst s2) = seen (fst s1) @ Z2" "snd s2 = snd s1 @ X2" "set Z2 \<subseteq> to_state ` set L2"
    "to_state ` set L2 \<subseteq> set (seen (fst s2))"
    "distinct (seen (fst s1)) \<longrightarrow> distinct (seen (fst s2))"
    "filter is_edge X2 = map (edge_of (count (fst s1)) False) L2"
    "filter is_node X2 = map (node_decl (count (fst s1))) Z2" "filter is_sink X2 = []"
    unfolding steps_def by blast
  have "seen (fst s2) = seen (fst s) @ (Z1 @ Z2)" "snd s2 = snd s @ (X1 @ X2)"
    using 1 2 by simp_all
  moreover have "set (Z1 @ Z2) \<subseteq> to_state ` set (L1 @ L2)" using 1 2 by auto
  moreover have "to_state ` set (L1 @ L2) \<subseteq> set (seen (fst s2))" using 1 2 by auto
  moreover have "filter is_edge (X1 @ X2) = map (edge_of (count (fst s)) False) (L1 @ L2)"
    "filter is_node (X1 @ X2) = map (node_decl (count (fst s))) (Z1 @ Z2)"
    "filter is_sink (X1 @ X2) = []"
    using 1 2 by simp_all
  moreover have "distinct (seen (fst s)) \<longrightarrow> distinct (seen (fst s2))" using 1 2 by blast
  moreover have "count (fst s2) = count (fst s)"
    "nonsink (fst s2) = nonsink (fst s) \<union> from_state ` set (L1 @ L2)"
    using 1 2 by auto
  ultimately show ?thesis unfolding steps_def by blast
qed

lemma steps_out:
  assumes "from_state t \<in> set (seen (fst s))"
  shows "steps [t] s (Subgraph_out t False s)"
proof (cases "to_state t \<in> set (seen (fst s))")
  case True
  with assms show ?thesis
    by (simp add: steps_def seen_out printed_out add_new_def ext_of_def)
next
  case False
  with assms show ?thesis
    by (simp add: steps_def seen_out printed_out add_new_def ext_of_def)
qed

lemma steps_seen_mono: "steps L s s' \<Longrightarrow> set (seen (fst s)) \<subseteq> set (seen (fst s'))"
  by (auto simp: steps_def)

lemma steps_fold:
  assumes "from_state ` set ts \<subseteq> set (seen (fst s))"
  shows "steps ts s (fold (\<lambda>t. Subgraph_out t False) ts s)"
  using assms
proof (induction ts arbitrary: s)
  case Nil
  then show ?case by (simp add: steps_refl)
next
  case (Cons t ts)
  have 1: "steps [t] s (Subgraph_out t False s)"
    using Cons.prems by (simp add: steps_out)
  have "from_state ` set ts \<subseteq> set (seen (fst (Subgraph_out t False s)))"
    using Cons.prems steps_seen_mono [OF 1] by auto
  then have "steps ts (Subgraph_out t False s) (fold (\<lambda>t. Subgraph_out t False) ts (Subgraph_out t False s))"
    by (rule Cons.IH)
  with 1 have "steps ([t] @ ts) s (fold (\<lambda>t. Subgraph_out t False) ts (Subgraph_out t False s))"
    by (rule steps_trans)
  then show ?case by simp
qed

lemma for_trans_fold:
  "for_trans dn du st ts s = fold (\<lambda>t. Subgraph_out t False) (filter (emits dn du st) ts) s"
  by (induction dn du st ts s rule: for_trans.induct) (simp_all add: emits_def)

lemma scan_fold:
  "scan start transs dn du cur s =
     fold (\<lambda>t. Subgraph_out t False) (expands start transs dn du (seen (fst s) ! cur)) s"
  by (simp add: scan_def expands_def Let_def for_trans_fold)

lemma from_expands: "t \<in> set (expands start transs dn du st) \<Longrightarrow> from_state t = st"
  by (auto simp: expands_def emits_def split: if_splits)

lemma steps_scan:
  assumes "cur < length (seen (fst s))"
  shows "steps (expands start transs dn du (seen (fst s) ! cur)) s (scan start transs dn du cur s)"
  unfolding scan_fold
proof (rule steps_fold)
  show "from_state ` set (expands start transs dn du (seen (fst s) ! cur)) \<subseteq> set (seen (fst s))"
    using assms by (auto dest: from_expands)
qed

lemma steps_while:
  assumes "cur \<le> length (seen (fst s))"
  shows "fst (while_cur start transs dn du cur s)
           = length (seen (fst (snd (while_cur start transs dn du cur s)))) \<and>
         steps (concat (map (expands start transs dn du)
                  (drop cur (seen (fst (snd (while_cur start transs dn du cur s)))))))
           s (snd (while_cur start transs dn du cur s))"
  using assms
proof (induction start transs dn du cur s rule: while_cur.induct)
  case (1 start transs dn du cur s)
  show ?case
  proof (cases "cur < length (seen (fst s))")
    case False
    then have "while_cur start transs dn du cur s = (cur, s)"
      by (subst while_cur.simps) simp
    with False "1.prems" show ?thesis
      by (simp add: steps_refl)
  next
    case True
    let ?m = "scan start transs dn du cur s"
    let ?r = "while_cur start transs dn du (cur + 1) ?m"
    let ?E = "expands start transs dn du"
    have w: "while_cur start transs dn du cur s = ?r"
      using True by (subst while_cur.simps) simp
    have sm: "steps (?E (seen (fst s) ! cur)) s ?m"
      using True by (rule steps_scan)
    then obtain Z where Z: "seen (fst ?m) = seen (fst s) @ Z"
      unfolding steps_def by blast
    then have le: "cur + 1 \<le> length (seen (fst ?m))" using True by simp
    from "1.IH" [OF True le]
    have len: "fst ?r = length (seen (fst (snd ?r)))"
      and st: "steps (concat (map ?E (drop (cur + 1) (seen (fst (snd ?r)))))) ?m (snd ?r)"
      by simp_all
    from st obtain Z' where Z': "seen (fst (snd ?r)) = seen (fst ?m) @ Z'"
      unfolding steps_def by blast
    have ZZ: "seen (fst (snd ?r)) = seen (fst s) @ Z @ Z'"
      using Z Z' by simp
    have nth: "seen (fst (snd ?r)) ! cur = seen (fst s) ! cur"
      using True unfolding ZZ by (simp add: nth_append)
    have "cur < length (seen (fst (snd ?r)))" using True unfolding ZZ by simp
    then have "drop cur (seen (fst (snd ?r))) = seen (fst s) ! cur # drop (cur + 1) (seen (fst (snd ?r)))"
      using nth by (metis Cons_nth_drop_Suc Suc_eq_plus1)
    then have "concat (map ?E (drop cur (seen (fst (snd ?r)))))
        = ?E (seen (fst s) ! cur) @ concat (map ?E (drop (cur + 1) (seen (fst (snd ?r)))))"
      by simp
    with steps_trans [OF sm st] len show ?thesis
      by (simp add: w)
  qed
qed


lemma fst_for_sinks [simp]: "fst (for_sinks ks s) = fst s"
  by (induction ks s rule: for_sinks.induct) simp_all

lemma snd_for_sinks:
  "snd (for_sinks ks s) =
     snd s @ map (\<lambda>k. SinkDecl k (count (fst s))) (filter (\<lambda>k. k \<notin> nonsink (fst s)) ks)"
  by (induction ks s rule: for_sinks.induct) simp_all

lemma set_expands: "set (expands start transs dn du st) \<subseteq> set transs"
  by (auto simp: expands_def)

lemma set_expanded: "set (expanded start transs dn du sn) \<subseteq> set transs"
  using set_expands by (fastforce simp: expanded_def)

lemma start_spec:
  fixes s :: state and start start_trans transs dn du
  defines "c \<equiv> count (fst s) + 1"
  defines "s' \<equiv> Subgraph_start start start_trans transs dn du s"
  defines "L \<equiv> expanded start transs dn du (seen (fst s'))"
  shows "count (fst s') = c"
    and "\<exists>Z. seen (fst s') = origin_key start_trans # Z \<and>
           set Z \<subseteq> insert (to_state start_trans) (to_state ` set L)"
    and "distinct (seen (fst s'))"
    and "nonsink (fst s') = insert (origin_key start_trans) (from_state ` set L)"
    and "\<exists>new. snd s' = snd s @ new \<and>
           filter is_edge new = edge_of c True start_trans # map (edge_of c False) L \<and>
           filter is_node new =
             NodeDecl (src_id c True (from_state start_trans)) (from_state start_trans)
               # map (node_decl c) (tl (seen (fst s'))) \<and>
           filter is_sink new =
             map (\<lambda>k. SinkDecl k c) (filter (\<lambda>k. k \<notin> nonsink (fst s')) (seen (fst s')))"
    and "fst (while_cur start transs dn du 1
           (Subgraph_out start_trans True
              ((fst s)\<lparr>seen := [], nonsink := {}, count := count (fst s) + 1\<rparr>, snd s)))
         = length (seen (fst s'))"
    and "insert (to_state start_trans) (to_state ` set L) \<subseteq> set (seen (fst s'))"
    and "\<exists>rest. snd s' = snd s @
           NodeDecl (src_id c True (from_state start_trans)) (from_state start_trans) # rest"
proof -
  define s0 :: state where "s0 = ((fst s)\<lparr>seen := [], nonsink := {}, count := count (fst s) + 1\<rparr>, snd s)"
  define s1 where "s1 = Subgraph_out start_trans True s0"
  define r where "r = while_cur start transs dn du 1 s1"
  define s2 where "s2 = snd r"
  have s': "s' = for_sinks (seen (fst s2)) s2"
    by (simp add: s'_def Subgraph_start_def Let_def s2_def r_def s1_def s0_def)
  have fst_s': "fst s' = fst s2" by (simp add: s')
  have L: "L = concat (map (expands start transs dn du) (drop 1 (seen (fst s2))))"
    by (simp add: L_def expanded_def fst_s' drop_Suc)
  have c1: "count (fst s1) = c" by (simp add: s1_def s0_def c_def)
  have seen1: "seen (fst s1) = add_new (to_state start_trans) [origin_key start_trans]"
    by (simp add: s1_def s0_def seen_out add_new_def origin_key_def ext_of_def)
  have ns1: "nonsink (fst s1) = {origin_key start_trans}"
    by (simp add: s1_def s0_def origin_key_def ext_of_def)
  have pr1: "snd s1 = snd s @
      [NodeDecl (src_id c True (from_state start_trans)) (from_state start_trans)]
      @ map (node_decl c) (tl (seen (fst s1))) @ [edge_of c True start_trans]"
    by (simp add: s1_def s0_def printed_out seen_out add_new_def c_def ext_of_def)
  have "1 \<le> length (seen (fst s1))" by (simp add: seen1 add_new_def)
  from steps_while [OF this, of start transs dn du]
  have len: "fst r = length (seen (fst s2))" and st: "steps L s1 s2"
    by (simp_all add: r_def s2_def L)
  from st obtain Z X where zx:
    "count (fst s2) = count (fst s1)" "nonsink (fst s2) = nonsink (fst s1) \<union> from_state ` set L"
    "seen (fst s2) = seen (fst s1) @ Z" "snd s2 = snd s1 @ X" "set Z \<subseteq> to_state ` set L"
    "to_state ` set L \<subseteq> set (seen (fst s2))"
    "distinct (seen (fst s1)) \<longrightarrow> distinct (seen (fst s2))"
    "filter is_edge X = map (edge_of (count (fst s1)) False) L"
    "filter is_node X = map (node_decl (count (fst s1))) Z" "filter is_sink X = []"
    unfolding steps_def by blast
  show "count (fst s') = c" by (simp add: fst_s' zx c1)
  show "\<exists>Z. seen (fst s') = origin_key start_trans # Z \<and>
           set Z \<subseteq> insert (to_state start_trans) (to_state ` set L)"
    using zx(3,5) by (auto simp: fst_s' seen1 add_new_def)
  have "distinct (seen (fst s1))" by (auto simp: seen1 add_new_def)
  with zx(7) show "distinct (seen (fst s'))" by (simp add: fst_s')
  show "nonsink (fst s') = insert (origin_key start_trans) (from_state ` set L)"
    by (simp add: fst_s' zx ns1)
  have tl: "tl (seen (fst s1) @ Z) = tl (seen (fst s1)) @ Z"
    by (simp add: seen1 add_new_def)
  let ?sinks = "map (\<lambda>k. SinkDecl k c) (filter (\<lambda>k. k \<notin> nonsink (fst s2)) (seen (fst s2)))"
  have sink_filter: "filter is_sink ?sinks = ?sinks" "filter is_edge ?sinks = []" "filter is_node ?sinks = []"
    by (induction "seen (fst s2)") (simp_all add: filter_map comp_def)
  have pr: "snd s' = snd s @
      ([NodeDecl (src_id c True (from_state start_trans)) (from_state start_trans)]
      @ map (node_decl c) (tl (seen (fst s1))) @ [edge_of c True start_trans] @ X @ ?sinks)"
    by (simp add: s' snd_for_sinks zx pr1 c1)
  show "\<exists>new. snd s' = snd s @ new \<and>
           filter is_edge new = edge_of c True start_trans # map (edge_of c False) L \<and>
           filter is_node new =
             NodeDecl (src_id c True (from_state start_trans)) (from_state start_trans)
               # map (node_decl c) (tl (seen (fst s'))) \<and>
           filter is_sink new =
             map (\<lambda>k. SinkDecl k c) (filter (\<lambda>k. k \<notin> nonsink (fst s')) (seen (fst s')))"
    apply (rule exI, rule conjI, rule pr)
    apply (simp add: filter_map comp_def zx c1 sink_filter fst_s' tl)
    done
  show "fst (while_cur start transs dn du 1
           (Subgraph_out start_trans True
              ((fst s)\<lparr>seen := [], nonsink := {}, count := count (fst s) + 1\<rparr>, snd s)))
         = length (seen (fst s'))"
    using len by (simp add: r_def s1_def s0_def fst_s')
  have "to_state start_trans \<in> set (seen (fst s1))" by (simp add: seen1 add_new_def)
  then show "insert (to_state start_trans) (to_state ` set L) \<subseteq> set (seen (fst s'))"
    using zx(3,6) by (auto simp: fst_s')
  show "\<exists>rest. snd s' = snd s @
           NodeDecl (src_id c True (from_state start_trans)) (from_state start_trans) # rest"
    using pr by simp
qed


subsection \<open>Identifiers and the transitions passed on by the worklist loop\<close>

lemma str_nat_last: "str_nat n \<noteq> [] \<and> last (str_nat n) = digit_char (n mod 10)"
proof (cases "n < 10")
  case True
  then have "str_nat n = [digit_char n]" by (simp add: str_nat.simps [of n])
  with True show ?thesis by simp
next
  case False
  then have "str_nat n = str_nat (n div 10) @ [digit_char (n mod 10)]"
    by (simp add: str_nat.simps [of n])
  then show ?thesis by simp
qed

lemma digit_char_not_O: "digit_char (n mod 10) \<noteq> CHR ''O''"
proof
  assume "digit_char (n mod 10) = CHR ''O''"
  then have "of_char (char_of (48 + n mod 10) :: char) = (of_char (CHR ''O'') :: nat)"
    by (simp only: digit_char_def)
  moreover have "(of_char (CHR ''O'') :: nat) = 79" by simp
  moreover have "of_char (char_of (48 + n mod 10) :: char) = ((48 + n mod 10) mod 256 :: nat)"
    by (simp only: of_char_of)
  ultimately have a: "(48 + n mod 10) mod 256 = (79 :: nat)" by (simp only:)
  have less: "n mod 10 < 10" by simp
  then have "48 + n mod 10 < 256" by linarith
  then have "(48 + n mod 10) mod 256 = 48 + n mod 10" by (rule mod_less)
  with a have "48 + n mod 10 = 79" by (simp only:)
  with less show False by linarith
qed

lemma last_src_id_first: "last (src_id c True x) = CHR ''O''"
  by (simp add: src_id_def Let_def ext_of_def)

lemma last_src_id_plain: "last (src_id c False x) = digit_char (c mod 10)"
  using str_nat_last [of c] by (simp add: src_id_def Let_def ext_of_def)

lemma edge_of_first_neq: "edge_of c False t \<noteq> edge_of c True t'"
proof
  assume "edge_of c False t = edge_of c True t'"
  then have "src_id c False (from_state t) = src_id c True (from_state t')"
    by (simp add: edge_of_def)
  then have "last (src_id c False (from_state t)) = last (src_id c True (from_state t'))"
    by (simp only:)
  then show False
    using digit_char_not_O [of c] by (simp only: last_src_id_first last_src_id_plain)
qed




lemma fold_states:
  "fold (\<lambda>t S. insert (to_state t) (insert (from_state t) S)) ts A
     = A \<union> from_state ` set ts \<union> to_state ` set ts"
  by (induction ts arbitrary: A) auto

lemma states_eq: "states ts = from_state ` set ts \<union> to_state ` set ts"
  by (simp add: states_def fold_states)

lemma finite_states: "finite (states ts)"
  by (simp add: states_eq)

lemma ex_cluster_value:
  "seen (fst ex_cluster) = [''A_O'', ''B'', ''C''] \<and>
   snd ex_cluster =
     [NodeDecl ''A_1_O'' ''A'', NodeDecl ''B_1'' ''B'', EdgeDecl ''A_1_O'' ''B_1'' ''<INPUT_X'',
      NodeDecl ''C_1'' ''C'', EdgeDecl ''B_1'' ''C_1'' ''<INPUT_Z'', SinkDecl ''C'' 1]"
  by code_simp

lemma ex_loop_cluster_value:
  "seen (fst ex_loop_cluster) = [''B_O'', ''B'', ''C''] \<and>
   snd ex_loop_cluster =
     [NodeDecl ''B_1_O'' ''B'', NodeDecl ''B_1'' ''B'', EdgeDecl ''B_1_O'' ''B_1'' ''<INPUT_Y'',
      NodeDecl ''C_1'' ''C'', EdgeDecl ''B_1'' ''C_1'' ''<INPUT_Z'', SinkDecl ''C'' 1]"
  by code_simp

subsection \<open>Start states as boundaries\<close>

lemma collide_start: "start_states collide_trans = [''INIT'', ''INIT_O'']"
  by code_simp

lemma collide_main:
  "main collide_lines =
     Inr [GraphOpen, RankdirLR, ClusterOpen 1, StartLabel ''INIT'',
          NodeDecl ''INIT_1_O'' ''INIT'', NodeDecl ''X_1'' ''X'',
          EdgeDecl ''INIT_1_O'' ''X_1'' ''<A'', EdgeDecl ''X_1'' ''INIT_O_1'' ''<B'',
          ClusterClose, ClusterOpen 2, StartLabel ''INIT_O'', ClusterClose, GraphClose]"
  by code_simp

lemma collide_cluster_value:
  "seen (fst collide_cluster) = [''INIT_O'', ''X''] \<and>
   snd collide_cluster =
     [NodeDecl ''INIT_1_O'' ''INIT'', NodeDecl ''X_1'' ''X'',
      EdgeDecl ''INIT_1_O'' ''X_1'' ''<A'', EdgeDecl ''X_1'' ''INIT_O_1'' ''<B'']"
  by code_simp


lemma expanded_from:
  assumes "t \<in> set (expanded start transs dn du sn)"
  shows "from_state t \<in> set (tl sn) \<and> from_state t \<notin> set start \<and> t \<in> set transs"
  using assms by (auto simp: expanded_def expands_def emits_def split: if_splits)

lemma start_state_boundary:
  fixes s :: state and start start_trans transs dn du
  defines "s' \<equiv> Subgraph_start start start_trans transs dn du s"
  defines "c \<equiv> count (fst s) + 1"
  defines "L \<equiv> expanded start transs dn du (seen (fst s'))"
  assumes "k \<in> set start" and "t \<in> set L" and "to_state t = k"
  shows "k \<in> set (seen (fst s'))"
    and "k \<notin> from_state ` set L"
    and "k \<noteq> from_state start_trans @ ''_O'' \<Longrightarrow>
           \<exists>new. snd s' = snd s @ new \<and> NodeDecl (k @ ''_'' @ str_nat c) k \<in> set new"
proof -
  note sp = start_spec [where start = start and start_trans = start_trans and transs = transs
      and dn = dn and du = du and s = s, folded s'_def c_def L_def]
  show seen: "k \<in> set (seen (fst s'))" using sp(7) assms(5,6) by auto
  show "k \<notin> from_state ` set L"
    using assms(4) expanded_from [of _ start transs dn du "seen (fst s')"] unfolding L_def by blast
  assume "k \<noteq> from_state start_trans @ ''_O''"
  with seen sp(2) have "k \<in> set (tl (seen (fst s')))" by (auto simp: origin_key_def)
  moreover from sp(5) obtain new where new: "snd s' = snd s @ new"
    and nodes: "filter is_node new =
             NodeDecl (src_id c True (from_state start_trans)) (from_state start_trans)
               # map (node_decl c) (tl (seen (fst s')))"
    by blast
  ultimately have "node_decl c k \<in> set (filter is_node new)" by simp
  then have "NodeDecl (k @ ''_'' @ str_nat c) k \<in> set new"
    by (simp add: node_decl_def dst_id_def)
  with new show "\<exists>new. snd s' = snd s @ new \<and> NodeDecl (k @ ''_'' @ str_nat c) k \<in> set new"
    by blast
qed

subsection \<open>Node identifiers\<close>

lemma digit_char_not_bs: "digit_char (n mod 10) \<noteq> CHR 0x5C"
proof
  assume "digit_char (n mod 10) = CHR 0x5C"
  then have "of_char (char_of (48 + n mod 10) :: char) = (of_char (CHR 0x5C) :: nat)"
    by (simp only: digit_char_def)
  moreover have "(of_char (CHR 0x5C) :: nat) = 92" by simp
  moreover have "of_char (char_of (48 + n mod 10) :: char) = ((48 + n mod 10) mod 256 :: nat)"
    by (simp only: of_char_of)
  ultimately have a: "(48 + n mod 10) mod 256 = (92 :: nat)" by (simp only:)
  have less: "n mod 10 < 10" by simp
  then have "48 + n mod 10 < 256" by linarith
  then have "(48 + n mod 10) mod 256 = 48 + n mod 10" by (rule mod_less)
  with a have "48 + n mod 10 = 92" by (simp only:)
  with less show False by linarith
qed

lemma bs_notin_str_nat: "CHR 0x5C \<notin> set (str_nat n)"
proof (induction n rule: str_nat.induct)
  case (1 n)
  show ?case
  proof (cases "n < 10")
    case True
    then have "str_nat n = [digit_char (n mod 10)]" by (simp add: str_nat.simps [of n])
    then show ?thesis using digit_char_not_bs [of n] by auto
  next
    case False
    then have "str_nat n = str_nat (n div 10) @ [digit_char (n mod 10)]"
      by (simp add: str_nat.simps [of n])
    then show ?thesis using 1 False digit_char_not_bs [of n] by auto
  qed
qed

lemma sublist_bsn_suffix:
  assumes "CHR 0x5C \<notin> set z" "z \<noteq> []" "hd z \<noteq> CHR ''n''"
  shows "sublist bsn (s @ z) \<longleftrightarrow> sublist bsn s"
proof
  assume "sublist bsn s"
  then show "sublist bsn (s @ z)" by (simp add: sublist_append)
next
  assume "sublist bsn (s @ z)"
  then consider "sublist bsn s" | "sublist bsn z"
    | xs1 xs2 where "bsn = xs1 @ xs2" "suffix xs1 s" "prefix xs2 z"
    by (auto simp: sublist_append)
  then show "sublist bsn s"
  proof cases
    case 1
    then show ?thesis .
  next
    case 2
    then have "set bsn \<subseteq> set z" by (rule set_mono_sublist)
    with assms(1) show ?thesis by (simp add: bsn_def)
  next
    case 3
    from 3(1) consider "xs1 = []" "xs2 = bsn" | "xs1 = [CHR 0x5C]" "xs2 = [CHR ''n'']" | "xs1 = bsn" "xs2 = []"
      by (auto simp: bsn_def Cons_eq_append_conv)
    then show ?thesis
    proof cases
      case 1
      with 3(3) have "set bsn \<subseteq> set z" by (auto dest: set_mono_prefix)
      with assms(1) show ?thesis by (simp add: bsn_def)
    next
      case 2
      with 3(3) assms(2,3) show ?thesis by (cases z) (auto simp: prefix_def)
    next
      case 3
      with \<open>suffix xs1 s\<close> show ?thesis by (simp add: suffix_imp_sublist)
    qed
  qed
qed

lemma src_id_eq:
  "src_id c first s =
     (if sublist bsn s then ''_'' @ str_nat c @ ext_of first
      else s @ ''_'' @ str_nat c @ ext_of first)"
proof -
  have "CHR 0x5C \<notin> set (''_'' @ str_nat c @ ext_of first)"
    using bs_notin_str_nat [of c] by (simp add: ext_of_def)
  then have "sublist bsn (s @ ''_'' @ str_nat c @ ext_of first) \<longleftrightarrow> sublist bsn s"
    by (rule sublist_bsn_suffix) simp_all
  then show ?thesis by (simp add: src_id_def Let_def)
qed

lemma err_cluster_value:
  "seen (fst err_cluster) = [''X'' @ bsn @ ''Y_O'', ''CLOSED''] \<and>
   snd err_cluster =
     [NodeDecl ''_1_O'' (''X'' @ bsn @ ''Y''), NodeDecl ''CLOSED_1'' ''CLOSED'',
      EdgeDecl ''_1_O'' ''CLOSED_1'' ''<PKT_ERROR'', SinkDecl ''CLOSED'' 1]"
  by code_simp

subsection \<open>The parse loop\<close>

lemma parse_lines_append:
  "parse_lines (ls1 @ ls2) b ts pr =
     (case parse_lines ls1 b ts pr of (b1, ts1, pr1) \<Rightarrow> parse_lines ls2 b1 ts1 pr1)"
  by (induction ls1 arbitrary: b ts pr) (auto split: option.splits)

lemma fst_parse_lines: "fst (parse_lines ls b ts pr) = base_after b ls"
  by (induction ls arbitrary: b ts pr) (auto split: option.splits)

lemma printed_parse_lines:
  "snd (snd (parse_lines ls b ts pr)) = pr @ map ParseError (filter unmatched ls)"
  by (induction ls arbitrary: b ts pr) (auto simp: unmatched_def split: option.splits)

lemma trans_parse_lines_printed:
  "fst (snd (parse_lines ls b ts pr)) = fst (snd (parse_lines ls b ts pr'))"
  by (induction ls arbitrary: b ts pr pr') (auto split: option.splits)

lemma unmatched_step:
  assumes "unmatched l"
  shows "parse_lines (l # ls) b ts pr = parse_lines ls b ts (pr @ [ParseError l])"
  using assms by (simp add: unmatched_def)

subsection \<open>What the two patterns match\<close>

lemma re_state_match_SomeD:
  assumes "re_state_match l = Some g"
  shows "g \<noteq> [] \<and> (\<forall>c\<in>set g. is_name_char c) \<and> (l = g @ '':'' \<or> l = g @ '':\<newline>'')"
proof -
  from assms have g: "g = takeWhile is_name_char l" "g \<noteq> []"
    and r: "dropWhile is_name_char l = '':'' \<or> dropWhile is_name_char l = '':\<newline>''"
    by (auto simp: re_state_match_def Let_def split: if_splits)
  have "l = g @ dropWhile is_name_char l" unfolding g by simp
  with r have "l = g @ '':'' \<or> l = g @ '':\<newline>''" by metis
  moreover have "\<forall>c\<in>set g. is_name_char c" unfolding g by (auto dest: set_takeWhileD)
  ultimately show ?thesis using g(2) by blast
qed

lemma span_id: "takeWhile P xs @ dropWhile P xs = xs"
  by simp

lemma prefix_drop: "prefix p xs \<Longrightarrow> xs = p @ drop (length p) xs"
  by (auto simp: prefix_def)

lemma re_trans_match_SomeD:
  assumes "re_trans_match l = Some (i, n, ou)"
  shows "\<exists>w1 w2 w3 w4 w5.
           l = w1 @ i @ w2 @ ''->'' @ w3 @ n
                 @ (case ou of None \<Rightarrow> [] | Some p \<Rightarrow> w4 @ ''('' @ p @ '')'') @ w5 \<and>
           w1 \<noteq> [] \<and> i \<noteq> [] \<and> n \<noteq> [] \<and>
           (\<forall>c\<in>set (w1 @ w2 @ w3 @ w4 @ w5). is_space c) \<and>
           (\<forall>c\<in>set (i @ n). is_name_char c) \<and>
           (case ou of None \<Rightarrow> True
            | Some p \<Rightarrow> p \<noteq> [] \<and> w4 \<noteq> [] \<and> (\<forall>c\<in>set p. is_name_char c))"
proof -
  define w1 where "w1 = takeWhile is_space l"
  define r1 where "r1 = dropWhile is_space l"
  define g1 where "g1 = takeWhile is_name_char r1"
  define w2 where "w2 = takeWhile is_space (dropWhile is_name_char r1)"
  define r2 where "r2 = dropWhile is_space (dropWhile is_name_char r1)"
  define w3 where "w3 = takeWhile is_space (drop 2 r2)"
  define r3 where "r3 = dropWhile is_space (drop 2 r2)"
  define g2 where "g2 = takeWhile is_name_char r3"
  define r4 where "r4 = dropWhile is_name_char r3"
  define w4 where "w4 = takeWhile is_space r4"
  define r5 where "r5 = dropWhile is_space r4"
  define g4 where "g4 = takeWhile is_name_char (drop 1 r5)"
  define r6 where "r6 = dropWhile is_name_char (drop 1 r5)"
  have m: "re_trans_match l =
     (if w1 = [] \<or> g1 = [] \<or> \<not> prefix ''->'' r2 then None
      else if g2 = [] then None
      else if r5 = [] then Some (g1, g2, None)
      else if w4 \<noteq> [] \<and> prefix ''('' r5 \<and> g4 \<noteq> [] \<and> prefix '')'' r6 \<and>
              dropWhile is_space (drop 1 r6) = []
           then Some (g1, g2, Some g4) else None)"
    unfolding re_trans_match_def Let_def w1_def r1_def g1_def w2_def r2_def w3_def r3_def g2_def
      r4_def w4_def r5_def g4_def r6_def by simp
  from assms m have ok: "w1 \<noteq> []" "g1 \<noteq> []" "prefix ''->'' r2" "g2 \<noteq> []" "i = g1" "n = g2"
    by (auto split: if_splits)
  have l1: "l = w1 @ r1" by (simp add: w1_def r1_def)
  have l2: "r1 = g1 @ w2 @ r2" by (simp add: g1_def w2_def r2_def)
  have l3: "r2 = ''->'' @ w3 @ r3"
    using prefix_drop [OF ok(3)] by (simp add: w3_def r3_def numeral_2_eq_2)
  have l4: "r3 = g2 @ w4 @ r5" by (simp add: g2_def r4_def w4_def r5_def)
  have sp: "\<forall>c\<in>set w1. is_space c" "\<forall>c\<in>set w2. is_space c" "\<forall>c\<in>set w3. is_space c"
    "\<forall>c\<in>set w4. is_space c"
    by (auto simp: w1_def w2_def w3_def w4_def dest: set_takeWhileD)
  have nm: "\<forall>c\<in>set g1. is_name_char c" "\<forall>c\<in>set g2. is_name_char c" "\<forall>c\<in>set g4. is_name_char c"
    by (auto simp: g1_def g2_def g4_def dest: set_takeWhileD)
  show ?thesis
  proof (cases "r5 = []")
    case True
    with assms m ok have ou: "ou = None" by (auto split: if_splits)
    have "l = w1 @ i @ w2 @ ''->'' @ w3 @ n @ [] @ w4"
      using l1 l2 l3 l4 True ok by simp
    with ou ok sp nm show ?thesis
      apply (rule_tac x = w1 in exI, rule_tac x = w2 in exI, rule_tac x = w3 in exI)
      apply (rule_tac x = "[]" in exI, rule_tac x = w4 in exI)
      apply auto
      done
  next
    case False
    with assms m ok have ou: "ou = Some g4" and more: "w4 \<noteq> []" "prefix ''('' r5" "g4 \<noteq> []"
      "prefix '')'' r6" "dropWhile is_space (drop 1 r6) = []"
      by (auto split: if_splits)
    have l5: "r5 = ''('' @ g4 @ r6"
      using prefix_drop [OF more(2)] by (simp add: g4_def r6_def)
    have l6: "r6 = '')'' @ drop 1 r6"
      using prefix_drop [OF more(4)] by simp
    have sp5: "\<forall>c\<in>set (drop 1 r6). is_space c"
      using more(5) by (simp add: dropWhile_eq_Nil_conv)
    have "l = w1 @ i @ w2 @ ''->'' @ w3 @ n @ (w4 @ ''('' @ g4 @ '')'') @ drop 1 r6"
      using l1 l2 l3 l4 l5 l6 ok by (metis append.assoc)
    with ou ok sp nm more sp5 show ?thesis
      apply (rule_tac x = w1 in exI, rule_tac x = w2 in exI, rule_tac x = w3 in exI)
      apply (rule_tac x = w4 in exI, rule_tac x = "drop 1 r6" in exI)
      apply auto
      done
  qed
qed


lemma paren_not_space: "is_space c \<Longrightarrow> c \<noteq> CHR ''(''"
  by (auto simp: is_space_def)

lemma paren_not_name: "is_name_char c \<Longrightarrow> c \<noteq> CHR ''(''"
  by (auto simp: is_name_char_def less_eq_char_def)

lemma re_trans_match_fields:
  assumes "re_trans_match l = Some (i, n, ou)"
  shows "i \<noteq> []" and "n \<noteq> []" and "(ou \<noteq> None) = (CHR ''('' \<in> set l)"
    and "\<forall>p. ou = Some p \<longrightarrow> p \<noteq> [] \<and> sublist (''('' @ p @ '')'') l"
proof -
  from re_trans_match_SomeD [OF assms] obtain w1 w2 w3 w4 w5 where
    l: "l = w1 @ i @ w2 @ ''->'' @ w3 @ n
                 @ (case ou of None \<Rightarrow> [] | Some p \<Rightarrow> w4 @ ''('' @ p @ '')'') @ w5"
    and ne: "w1 \<noteq> []" "i \<noteq> []" "n \<noteq> []"
    and sp: "\<forall>c\<in>set (w1 @ w2 @ w3 @ w4 @ w5). is_space c"
    and nm: "\<forall>c\<in>set (i @ n). is_name_char c"
    and op: "case ou of None \<Rightarrow> True
            | Some p \<Rightarrow> p \<noteq> [] \<and> w4 \<noteq> [] \<and> (\<forall>c\<in>set p. is_name_char c)"
    by blast
  show "i \<noteq> []" "n \<noteq> []" using ne by simp_all
  have no: "CHR ''('' \<notin> set (w1 @ i @ w2 @ ''->'' @ w3 @ n @ w5)"
    using sp nm by (auto dest: paren_not_space paren_not_name)
  show "(ou \<noteq> None) = (CHR ''('' \<in> set l)"
  proof (cases ou)
    case None
    with l no show ?thesis by simp
  next
    case (Some p)
    with l show ?thesis by simp
  qed
  show "\<forall>p. ou = Some p \<longrightarrow> p \<noteq> [] \<and> sublist (''('' @ p @ '')'') l"
  proof (intro allI impI)
    fix p assume p: "ou = Some p"
    with op have "p \<noteq> []" by simp
    moreover have "l = (w1 @ i @ w2 @ ''->'' @ w3 @ n @ w4) @ (''('' @ p @ '')'') @ w5"
      using l p by simp
    then have "sublist (''('' @ p @ '')'') l" unfolding sublist_def by blast
    ultimately show "p \<noteq> [] \<and> sublist (''('' @ p @ '')'') l" by blast
  qed
qed

lemma base_after_None:
  "base_after b ls = None \<longleftrightarrow> b = None \<and> (\<forall>l\<in>set ls. re_state_match l = None)"
  by (induction ls arbitrary: b) (auto split: option.splits)

lemma base_after_Some:
  assumes "base_after b ls = Some f"
  shows "b = Some f \<or> (\<exists>l\<in>set ls. re_state_match l = Some f)"
  using assms by (induction ls arbitrary: b) (auto split: option.splits)

lemma parse_lines_mem:
  assumes "x \<in> set (fst (snd (parse_lines ls b ts pr)))"
  shows "x \<in> set ts \<or>
         (\<exists>ls1 l ls2 i n ou. ls = ls1 @ l # ls2 \<and> re_state_match l = None \<and>
            re_trans_match l = Some (i, n, ou) \<and> x = (base_after b ls1, n, i, ou))"
  using assms
proof (induction ls arbitrary: b ts pr)
  case Nil
  then show ?case by simp
next
  case (Cons l ls)
  show ?case
  proof (cases "re_state_match l")
    case (Some g)
    with Cons.prems have "x \<in> set (fst (snd (parse_lines ls (Some g) ts pr)))" by simp
    from Cons.IH [OF this] show ?thesis
    proof
      assume "x \<in> set ts" then show ?thesis ..
    next
      assume "\<exists>ls1 l' ls2 i n ou. ls = ls1 @ l' # ls2 \<and> re_state_match l' = None \<and>
            re_trans_match l' = Some (i, n, ou) \<and> x = (base_after (Some g) ls1, n, i, ou)"
      then obtain ls1 l' ls2 i n ou where "ls = ls1 @ l' # ls2" "re_state_match l' = None"
        "re_trans_match l' = Some (i, n, ou)" "x = (base_after (Some g) ls1, n, i, ou)"
        by blast
      with Some have "l # ls = (l # ls1) @ l' # ls2 \<and> re_state_match l' = None \<and>
            re_trans_match l' = Some (i, n, ou) \<and> x = (base_after b (l # ls1), n, i, ou)"
        by simp
      then show ?thesis by blast
    qed
  next
    case None
    note st = None
    show ?thesis
    proof (cases "re_trans_match l")
      case None
      with st Cons.prems have "x \<in> set (fst (snd (parse_lines ls b ts (pr @ [ParseError l]))))"
        by simp
      from Cons.IH [OF this] show ?thesis
      proof
        assume "x \<in> set ts" then show ?thesis ..
      next
        assume "\<exists>ls1 l' ls2 i n ou. ls = ls1 @ l' # ls2 \<and> re_state_match l' = None \<and>
            re_trans_match l' = Some (i, n, ou) \<and> x = (base_after b ls1, n, i, ou)"
        then obtain ls1 l' ls2 i n ou where "ls = ls1 @ l' # ls2" "re_state_match l' = None"
          "re_trans_match l' = Some (i, n, ou)" "x = (base_after b ls1, n, i, ou)"
          by blast
        with st have "l # ls = (l # ls1) @ l' # ls2 \<and> re_state_match l' = None \<and>
            re_trans_match l' = Some (i, n, ou) \<and> x = (base_after b (l # ls1), n, i, ou)"
          by simp
        then show ?thesis by blast
      qed
    next
      case (Some m)
      obtain i n ou where m: "m = (i, n, ou)" by (cases m) auto
      with st Some Cons.prems
      have "x \<in> set (fst (snd (parse_lines ls b (ts @ [(b, n, i, ou)]) pr)))" by simp
      from Cons.IH [OF this] show ?thesis
      proof
        assume "x \<in> set (ts @ [(b, n, i, ou)])"
        then consider "x \<in> set ts" | "x = (b, n, i, ou)" by auto
        then show ?thesis
        proof cases
          case 1 then show ?thesis ..
        next
          case 2
          with st Some m have "l # ls = [] @ l # ls \<and> re_state_match l = None \<and>
            re_trans_match l = Some (i, n, ou) \<and> x = (base_after b [], n, i, ou)"
            by simp
          then show ?thesis by blast
        qed
      next
        assume "\<exists>ls1 l' ls2 i n ou. ls = ls1 @ l' # ls2 \<and> re_state_match l' = None \<and>
            re_trans_match l' = Some (i, n, ou) \<and> x = (base_after b ls1, n, i, ou)"
        then obtain ls1 l' ls2 i' n' ou' where "ls = ls1 @ l' # ls2" "re_state_match l' = None"
          "re_trans_match l' = Some (i', n', ou')" "x = (base_after b ls1, n', i', ou')"
          by blast
        with st have "l # ls = (l # ls1) @ l' # ls2 \<and> re_state_match l' = None \<and>
            re_trans_match l' = Some (i', n', ou') \<and> x = (base_after b (l # ls1), n', i', ou')"
          by simp
        then show ?thesis by blast
      qed
    qed
  qed
qed

lemma ex_lines_value:
  "parse_lines ex_lines None [] [] = (Some ''INIT'', [(Some ''INIT'', ''X'', ''A'', Some ''PKT_OPEN'')], [])"
  by code_simp

subsection \<open>The dictionary of an unusual input\<close>

lemma for_res_step:
  assumes "inp t = u"
  shows "for_res u (t # ts) res =
     for_res u ts
       (AList.map_entry (group_key t) (\<lambda>v. v @ [from_state t])
          (if map_of res (group_key t) = None then AList.update (group_key t) [] res else res))"
  using assms by (simp add: Let_def group_key_def)

lemma for_res_skip: "inp t \<noteq> u \<Longrightarrow> for_res u (t # ts) res = for_res u ts res"
  by simp

lemma map_of_for_res:
  "map_of (for_res u ts res) k =
     (if origins u k ts = [] then map_of res k
      else Some ((case map_of res k of None \<Rightarrow> [] | Some v \<Rightarrow> v) @ origins u k ts))"
proof (induction ts arbitrary: res)
  case Nil
  then show ?case by (simp add: origins_def)
next
  case (Cons t ts)
  show ?case
  proof (cases "inp t = u")
    case False
    then have "origins u k (t # ts) = origins u k ts" by (simp add: origins_def)
    with Cons show ?thesis by (simp only: for_res_skip [OF False])
  next
    case True
    let ?k0 = "group_key t"
    let ?res1 = "if map_of res ?k0 = None then AList.update ?k0 [] res else res"
    let ?res2 = "AList.map_entry ?k0 (\<lambda>v. v @ [from_state t]) ?res1"
    have m1: "map_of ?res1 = (if map_of res ?k0 = None then (map_of res)(?k0 \<mapsto> []) else map_of res)"
      by (simp add: update_conv')
    have m2: "map_of ?res2 k =
        (if k = ?k0 then Some ((case map_of res ?k0 of None \<Rightarrow> [] | Some v \<Rightarrow> v) @ [from_state t])
         else map_of res k)"
      unfolding map_of_map_entry m1 by (auto split: option.splits)
    have o: "origins u k (t # ts) = (if k = ?k0 then [from_state t] else []) @ origins u k ts"
      using True by (auto simp: origins_def)
    have "map_of (for_res u (t # ts) res) k = map_of (for_res u ts ?res2) k"
      by (simp only: for_res_step [OF True])
    also have "\<dots> = (if origins u k ts = [] then map_of ?res2 k
      else Some ((case map_of ?res2 k of None \<Rightarrow> [] | Some v \<Rightarrow> v) @ origins u k ts))"
      by (rule Cons.IH)
    also have "\<dots> = (if origins u k (t # ts) = [] then map_of res k
      else Some ((case map_of res k of None \<Rightarrow> [] | Some v \<Rightarrow> v) @ origins u k (t # ts)))"
      unfolding m2 o by (auto split: option.splits)
    finally show ?thesis .
  qed
qed

lemma keys_for_res:
  "fst ` set (for_res u ts res) = fst ` set res \<union> group_key ` {t \<in> set ts. inp t = u}"
proof (induction ts arbitrary: res)
  case Nil
  then show ?case by simp
next
  case (Cons t ts)
  show ?case
  proof (cases "inp t = u")
    case False
    then have "group_key ` {t' \<in> set (t # ts). inp t' = u} = group_key ` {t' \<in> set ts. inp t' = u}"
      by auto
    then show ?thesis unfolding for_res_skip [OF False] Cons.IH by simp
  next
    case True
    have "fst ` set (AList.map_entry (group_key t) (\<lambda>v. v @ [from_state t])
          (if map_of res (group_key t) = None then AList.update (group_key t) [] res else res))
        = insert (group_key t) (fst ` set res)"
    proof (cases "map_of res (group_key t) = None")
      case True
      then show ?thesis by (simp add: dom_map_entry dom_update)
    next
      case False
      then have "group_key t \<in> fst ` set res" by (simp add: map_of_eq_None_iff)
      with False show ?thesis by (auto simp: dom_map_entry insert_absorb)
    qed
    with True show ?thesis
      unfolding for_res_step [OF True] Cons.IH by auto
  qed
qed

lemma distinct_for_res:
  "distinct (map fst res) \<Longrightarrow> distinct (map fst (for_res u ts res))"
proof (induction ts arbitrary: res)
  case Nil
  then show ?case by simp
next
  case (Cons t ts)
  show ?case
  proof (cases "inp t = u")
    case False
    with Cons show ?thesis by (simp only: for_res_skip [OF False])
  next
    case True
    have "distinct (map fst (AList.map_entry (group_key t) (\<lambda>v. v @ [from_state t])
          (if map_of res (group_key t) = None then AList.update (group_key t) [] res else res)))"
      using Cons.prems by (simp add: distinct_map_entry distinct_update)
    then show ?thesis unfolding for_res_step [OF True] by (rule Cons.IH)
  qed
qed

lemma for_keys_fold:
  assumes "\<forall>k\<in>set ks. map_of res k = Some (f k)"
  shows "for_keys start transs u res ks s =
           Inr (fold (\<lambda>k. Subgraph_start start (error_start u k (f k)) transs False False) ks s)"
  using assms by (induction ks arbitrary: s) simp_all

lemma error_start_origins: "error_start u k (origins u k transs) = group_start u transs k"
  by (simp add: error_start_def group_start_def)

lemma res_keys_sorted:
  "sort (map fst (for_res u transs [])) =
     sorted_list_of_set (group_key ` {t \<in> set transs. inp t = u})"
proof -
  have d: "distinct (map fst (for_res u transs []))" by (rule distinct_for_res) simp
  have ks: "set (map fst (for_res u transs [])) = group_key ` {t \<in> set transs. inp t = u}"
    using keys_for_res [of u transs "[]"] by simp
  have "sorted_list_of_set (set (map fst (for_res u transs [])))
      = sort (remdups (map fst (for_res u transs [])))"
    by (rule sorted_list_of_set_sort_remdups)
  then show ?thesis
    unfolding ks distinct_remdups_id [OF d] by (rule sym)
qed

lemma res_empty: "for_res u transs [] = [] \<longleftrightarrow> (\<forall>t\<in>set transs. inp t \<noteq> u)"
proof -
  have "for_res u transs [] = [] \<longleftrightarrow> fst ` set (for_res u transs []) = {}" by simp
  also have "\<dots> \<longleftrightarrow> (\<forall>t\<in>set transs. inp t \<noteq> u)"
    unfolding keys_for_res by auto
  finally show ?thesis .
qed

lemma origins_of_key:
  assumes "k \<in> group_key ` {t \<in> set transs. inp t = u}"
  shows "origins u k transs \<noteq> []"
  using assms by (auto simp: origins_def filter_empty_conv)

lemma err_path_value:
  "map_sum id (snd \<circ> snd) (error_path [] err_trans ''PKT_ERROR'' (0, (Subgraph_init, []))) =
     Inr [ClusterOpen 1, ErrorPathLabel ''PKT_ERROR'', RankdirTB,
          NodeDecl ''_1_O'' (''X'' @ bsn @ ''Y''), NodeDecl ''CLOSED_1'' ''CLOSED'',
          EdgeDecl ''_1_O'' ''CLOSED_1'' ''<PKT_ERROR'', SinkDecl ''CLOSED'' 1, ClusterClose]"
  by code_simp

lemma dup_path_value:
  "map_sum id (snd \<circ> snd) (error_path [] dup_trans ''PKT_ERROR'' (0, (Subgraph_init, []))) =
     Inr [ClusterOpen 1, ErrorPathLabel ''PKT_ERROR'', RankdirTB,
          NodeDecl ''_1_O'' (''X'' @ bsn @ ''X''), NodeDecl ''CLOSED_1'' ''CLOSED'',
          EdgeDecl ''_1_O'' ''CLOSED_1'' ''<PKT_ERROR'', SinkDecl ''CLOSED'' 1, ClusterClose]"
  by code_simp

lemma dup_res_value:
  "map_of (for_res ''PKT_ERROR'' dup_trans []) (''CLOSED'', None) = Some [''X'', ''X'']"
  by code_simp

lemma dup_names_value:
  "set (map from_state dup_trans) = {''X''} \<and>
   join bsn (sorted_list_of_set (set (map from_state dup_trans))) = ''X''"
  by (simp add: dup_trans_def tr_def)

subsection \<open>The two matchers against the shape of their patterns\<close>

text \<open>
  \<open>re_trans_match\<close> returns the groups \<open>i\<close>, \<open>n\<close>, \<open>ou\<close> exactly for the lines that the
  pattern describes: white space, \<open>i\<close>, optional white space, the arrow, optional white space,
  \<open>n\<close>, then for an output white space and the parenthesized name, then white space to the end.
  \<open>re_state_match\<close> returns \<open>g\<close> exactly for the name \<open>g\<close> followed by a colon and the end of
  the line.
\<close>

lemma span_run:
  assumes "\<forall>c\<in>set xs. P c" and "ys = [] \<or> \<not> P (hd ys)"
  shows "takeWhile P (xs @ ys) = xs" and "dropWhile P (xs @ ys) = ys"
proof -
  have t: "takeWhile P ys = []" and d: "dropWhile P ys = ys"
    using assms(2) by (cases ys; auto)+
  show "takeWhile P (xs @ ys) = xs" using assms(1) by (simp add: takeWhile_append2 t)
  show "dropWhile P (xs @ ys) = ys" using assms(1) by (simp add: dropWhile_append2 d)
qed

lemma space_not_name: "is_space c \<Longrightarrow> \<not> is_name_char c"
  by (auto simp: is_space_def is_name_char_def less_eq_char_def)

lemma marks_not_name:
  "\<not> is_name_char CHR ''-''" "\<not> is_name_char CHR ''(''" "\<not> is_name_char CHR '')''"
  "\<not> is_name_char CHR '':''"
  by (simp_all add: is_name_char_def less_eq_char_def)

lemma marks_not_space:
  "\<not> is_space CHR ''-''" "\<not> is_space CHR ''(''" "\<not> is_space CHR '')''"
  by (simp_all add: is_space_def)

lemma hd_not_name:
  assumes "\<forall>c\<in>set w. is_space c"
  shows "\<not> is_name_char (hd (w @ CHR ''-'' # r))" "\<not> is_name_char (hd (w @ CHR ''('' # r))"
  using assms by (cases w; simp add: marks_not_name space_not_name)+

lemma hd_not_space:
  assumes "\<forall>c\<in>set g. is_name_char c" "g \<noteq> []"
  shows "\<not> is_space (hd (g @ r))"
  using assms space_not_name by (cases g) auto

lemma re_state_match_complete:
  assumes "g \<noteq> []" "\<forall>c\<in>set g. is_name_char c" "l = g @ '':'' \<or> l = g @ '':\<newline>''"
  shows "re_state_match l = Some g"
proof -
  from assms(3) obtain r where r: "l = g @ r" "r = '':'' \<or> r = '':\<newline>''" by auto
  then have "r = [] \<or> \<not> is_name_char (hd r)" by (auto simp: marks_not_name)
  from span_run [OF assms(2) this] show ?thesis
    using assms(1) r by (simp add: re_state_match_def Let_def)
qed

lemma re_trans_match_None_complete:
  assumes "l = w1 @ i @ w2 @ ''->'' @ w3 @ n @ w5"
    and "w1 \<noteq> []" "i \<noteq> []" "n \<noteq> []"
    and sp: "\<forall>c\<in>set w1. is_space c" "\<forall>c\<in>set w2. is_space c" "\<forall>c\<in>set w3. is_space c"
      "\<forall>c\<in>set w5. is_space c"
    and nm: "\<forall>c\<in>set i. is_name_char c" "\<forall>c\<in>set n. is_name_char c"
  shows "re_trans_match l = Some (i, n, None)"
proof -
  let ?r1 = "i @ w2 @ ''->'' @ w3 @ n @ w5"
  let ?r1' = "w2 @ ''->'' @ w3 @ n @ w5"
  let ?r2 = "''->'' @ w3 @ n @ w5"
  let ?r3 = "n @ w5"
  have a: "takeWhile is_space l = w1" "dropWhile is_space l = ?r1"
    unfolding assms(1) using hd_not_space [OF nm(1) assms(3)]
    by (intro span_run sp; simp)+
  have b: "takeWhile is_name_char ?r1 = i" "dropWhile is_name_char ?r1 = ?r1'"
    using hd_not_name(1) [OF sp(2), of "CHR ''>'' # w3 @ n @ w5"]
    by (intro span_run nm; simp)+
  have c: "dropWhile is_space ?r1' = ?r2"
    by (intro span_run sp) (simp add: marks_not_space)
  have d: "dropWhile is_space (w3 @ ?r3) = ?r3"
    using hd_not_space [OF nm(2) assms(4)] by (intro span_run sp) simp
  have e: "takeWhile is_name_char ?r3 = n" "dropWhile is_name_char ?r3 = w5"
    using sp(4) space_not_name by (intro span_run nm; cases w5; auto)+
  have f: "dropWhile is_space w5 = []" using sp(4) by simp
  show ?thesis
    unfolding re_trans_match_def Let_def a b c
    using assms(2,3,4) by (simp add: d e f)
qed


lemma re_trans_match_Some_complete:
  assumes "l = w1 @ i @ w2 @ ''->'' @ w3 @ n @ w4 @ ''('' @ p @ '')'' @ w5"
    and "w1 \<noteq> []" "i \<noteq> []" "n \<noteq> []" "w4 \<noteq> []" "p \<noteq> []"
    and sp: "\<forall>c\<in>set w1. is_space c" "\<forall>c\<in>set w2. is_space c" "\<forall>c\<in>set w3. is_space c"
      "\<forall>c\<in>set w4. is_space c" "\<forall>c\<in>set w5. is_space c"
    and nm: "\<forall>c\<in>set i. is_name_char c" "\<forall>c\<in>set n. is_name_char c" "\<forall>c\<in>set p. is_name_char c"
  shows "re_trans_match l = Some (i, n, Some p)"
proof -
  define r6 where "r6 = '')'' @ w5"
  define r5 where "r5 = ''('' @ p @ r6"
  define r4 where "r4 = w4 @ r5"
  define r3 where "r3 = n @ r4"
  define r2 where "r2 = ''->'' @ w3 @ r3"
  define r1' where "r1' = w2 @ r2"
  define r1 where "r1 = i @ r1'"
  have l: "l = w1 @ r1"
    by (simp add: assms(1) r1_def r1'_def r2_def r3_def r4_def r5_def r6_def)
  have h1: "r1 = [] \<or> \<not> is_space (hd r1)"
    using hd_not_space [OF nm(1) assms(3)] by (simp add: r1_def)
  have h2: "r1' = [] \<or> \<not> is_name_char (hd r1')"
    using hd_not_name(1) [OF sp(2)] by (simp add: r1'_def r2_def)
  have h3: "r2 = [] \<or> \<not> is_space (hd r2)"
    by (simp add: r2_def marks_not_space)
  have h4: "r3 = [] \<or> \<not> is_space (hd r3)"
    using hd_not_space [OF nm(2) assms(4)] by (simp add: r3_def)
  have h5: "r4 = [] \<or> \<not> is_name_char (hd r4)"
    using hd_not_name(2) [OF sp(4)] by (simp add: r4_def r5_def)
  have h6: "r5 = [] \<or> \<not> is_space (hd r5)"
    by (simp add: r5_def marks_not_space)
  have h7: "r6 = [] \<or> \<not> is_name_char (hd r6)"
    by (simp add: r6_def marks_not_name)
  have a: "takeWhile is_space l = w1" "dropWhile is_space l = r1"
    unfolding l by (rule span_run [OF sp(1) h1])+
  have b: "takeWhile is_name_char r1 = i" "dropWhile is_name_char r1 = r1'"
    unfolding r1_def by (rule span_run [OF nm(1) h2])+
  have c: "dropWhile is_space r1' = r2"
    unfolding r1'_def by (rule span_run [OF sp(2) h3])
  have pre: "prefix ''->'' r2" "drop 2 r2 = w3 @ r3" by (simp_all add: r2_def)
  have d: "dropWhile is_space (w3 @ r3) = r3"
    by (rule span_run [OF sp(3) h4])
  have e: "takeWhile is_name_char r3 = n" "dropWhile is_name_char r3 = r4"
    unfolding r3_def by (rule span_run [OF nm(2) h5])+
  have f: "takeWhile is_space r4 = w4" "dropWhile is_space r4 = r5"
    unfolding r4_def by (rule span_run [OF sp(4) h6])+
  have pre5: "r5 \<noteq> []" "prefix ''('' r5" "drop 1 r5 = p @ r6" by (simp_all add: r5_def)
  have g: "takeWhile is_name_char (p @ r6) = p" "dropWhile is_name_char (p @ r6) = r6"
    by (rule span_run [OF nm(3) h7])+
  have pre6: "prefix '')'' r6" "drop 1 r6 = w5" by (simp_all add: r6_def)
  have h: "dropWhile is_space w5 = []" using sp(5) by simp
  show ?thesis
    unfolding re_trans_match_def Let_def a b c pre d e f pre5 g pre6 h
    using assms(2-6) pre pre5 pre6 by simp
qed

lemma re_trans_match_iff:
  "re_trans_match l = Some (i, n, ou) \<longleftrightarrow>
     (\<exists>w1 w2 w3 w4 w5.
        l = w1 @ i @ w2 @ ''->'' @ w3 @ n
              @ (case ou of None \<Rightarrow> [] | Some p \<Rightarrow> w4 @ ''('' @ p @ '')'') @ w5 \<and>
        w1 \<noteq> [] \<and> i \<noteq> [] \<and> n \<noteq> [] \<and>
        (\<forall>c\<in>set (w1 @ w2 @ w3 @ w4 @ w5). is_space c) \<and>
        (\<forall>c\<in>set (i @ n). is_name_char c) \<and>
        (case ou of None \<Rightarrow> True
         | Some p \<Rightarrow> p \<noteq> [] \<and> w4 \<noteq> [] \<and> (\<forall>c\<in>set p. is_name_char c)))"
proof
  assume "re_trans_match l = Some (i, n, ou)"
  then show "\<exists>w1 w2 w3 w4 w5.
        l = w1 @ i @ w2 @ ''->'' @ w3 @ n
              @ (case ou of None \<Rightarrow> [] | Some p \<Rightarrow> w4 @ ''('' @ p @ '')'') @ w5 \<and>
        w1 \<noteq> [] \<and> i \<noteq> [] \<and> n \<noteq> [] \<and>
        (\<forall>c\<in>set (w1 @ w2 @ w3 @ w4 @ w5). is_space c) \<and>
        (\<forall>c\<in>set (i @ n). is_name_char c) \<and>
        (case ou of None \<Rightarrow> True
         | Some p \<Rightarrow> p \<noteq> [] \<and> w4 \<noteq> [] \<and> (\<forall>c\<in>set p. is_name_char c))"
    by (rule re_trans_match_SomeD)
next
  assume "\<exists>w1 w2 w3 w4 w5.
        l = w1 @ i @ w2 @ ''->'' @ w3 @ n
              @ (case ou of None \<Rightarrow> [] | Some p \<Rightarrow> w4 @ ''('' @ p @ '')'') @ w5 \<and>
        w1 \<noteq> [] \<and> i \<noteq> [] \<and> n \<noteq> [] \<and>
        (\<forall>c\<in>set (w1 @ w2 @ w3 @ w4 @ w5). is_space c) \<and>
        (\<forall>c\<in>set (i @ n). is_name_char c) \<and>
        (case ou of None \<Rightarrow> True
         | Some p \<Rightarrow> p \<noteq> [] \<and> w4 \<noteq> [] \<and> (\<forall>c\<in>set p. is_name_char c))"
  then obtain w1 w2 w3 w4 w5 where
    l: "l = w1 @ i @ w2 @ ''->'' @ w3 @ n
              @ (case ou of None \<Rightarrow> [] | Some p \<Rightarrow> w4 @ ''('' @ p @ '')'') @ w5"
    and ne: "w1 \<noteq> []" "i \<noteq> []" "n \<noteq> []"
    and sp: "\<forall>c\<in>set w1. is_space c" "\<forall>c\<in>set w2. is_space c" "\<forall>c\<in>set w3. is_space c"
      "\<forall>c\<in>set w4. is_space c" "\<forall>c\<in>set w5. is_space c"
    and nm: "\<forall>c\<in>set i. is_name_char c" "\<forall>c\<in>set n. is_name_char c"
    and op: "case ou of None \<Rightarrow> True
         | Some p \<Rightarrow> p \<noteq> [] \<and> w4 \<noteq> [] \<and> (\<forall>c\<in>set p. is_name_char c)"
    by auto
  show "re_trans_match l = Some (i, n, ou)"
  proof (cases ou)
    case None
    with l have "l = w1 @ i @ w2 @ ''->'' @ w3 @ n @ w5" by simp
    from re_trans_match_None_complete [OF this ne sp(1,2,3,5) nm] None show ?thesis by simp
  next
    case (Some p)
    with l have l': "l = w1 @ i @ w2 @ ''->'' @ w3 @ n @ w4 @ ''('' @ p @ '')'' @ w5" by simp
    from op Some have "w4 \<noteq> []" "p \<noteq> []" "\<forall>c\<in>set p. is_name_char c" by simp_all
    from re_trans_match_Some_complete [OF l' ne this(1,2) sp nm this(3)] Some
    show ?thesis by simp
  qed
qed

lemma re_state_match_iff:
  "re_state_match l = Some g \<longleftrightarrow>
     g \<noteq> [] \<and> (\<forall>c\<in>set g. is_name_char c) \<and> (l = g @ '':'' \<or> l = g @ '':\<newline>'')"
  using re_state_match_SomeD [of l g] re_state_match_complete [of g l] by blast

subsection \<open>The text printed for the example\<close>

lemma ex_cluster_render:
  "map render (snd ex_cluster) =
     ['' A_1_O [label='' @ [CHR 0x22] @ ''A'' @ [CHR 0x22] @ ''];'',
      '' B_1 [label='' @ [CHR 0x22] @ ''B'' @ [CHR 0x22] @ ''];'',
      ''   A_1_O -> B_1 [label='' @ [CHR 0x22] @ ''<INPUT_X'' @ [CHR 0x22] @ ''];'',
      '' C_1 [label='' @ [CHR 0x22] @ ''C'' @ [CHR 0x22] @ ''];'',
      ''   B_1 -> C_1 [label='' @ [CHR 0x22] @ ''<INPUT_Z'' @ [CHR 0x22] @ ''];'',
      '' C_1 [color=coral, style=filled];'']"
  by code_simp

subsection \<open>The entries of \<open>seen\<close> are the reached states\<close>





section \<open>Properties of the cluster builder\<close>

text \<open>
  Claim C10. In every call of \<^verbatim>\<open>Subgraph.start\<close>, whatever the flags, the first call of
  \<^verbatim>\<open>out\<close> puts the key of the origin node, the start transition's \<^verbatim>\<open>t[0]\<close> followed by
  \<^verbatim>\<open>_O\<close>, into \<open>nonsink\<close>. The key is still there at the end and it is the first entry
  of \<open>seen\<close>, so no line printed by the call gives the origin node the sink styling.
\<close>

theorem origin_never_sink:
  fixes s :: state and start start_trans transs do_nop do_unusual
  defines "s' \<equiv> Subgraph_start start start_trans transs do_nop do_unusual s"
  defines "s1 \<equiv> Subgraph_out start_trans True
                  ((fst s)\<lparr>seen := [], nonsink := {}, count := count (fst s) + 1\<rparr>, snd s)"
  shows "nonsink (fst s1) = {from_state start_trans @ ''_O''} \<and>
         from_state start_trans @ ''_O'' \<in> nonsink (fst s') \<and>
         (\<exists>Z. seen (fst s') = (from_state start_trans @ ''_O'') # Z) \<and>
         (\<exists>new. snd s' = snd s @ new \<and> (\<forall>n. SinkDecl (from_state start_trans @ ''_O'') n \<notin> set new))"
proof -
  note sp = start_spec [where start = start and start_trans = start_trans and transs = transs
      and dn = do_nop and du = do_unusual and s = s, folded s'_def]
  have ns: "from_state start_trans @ ''_O'' \<in> nonsink (fst s')"
    using sp(4) by (simp add: origin_key_def)
  from sp(5) obtain new where new: "snd s' = snd s @ new"
    and sinks: "filter is_sink new =
           map (\<lambda>k. SinkDecl k (count (fst s) + 1))
             (filter (\<lambda>k. k \<notin> nonsink (fst s')) (seen (fst s')))"
    by blast
  have "SinkDecl (from_state start_trans @ ''_O'') n \<notin> set new" for n
  proof
    assume "SinkDecl (from_state start_trans @ ''_O'') n \<in> set new"
    then have "SinkDecl (from_state start_trans @ ''_O'') n \<in> set (filter is_sink new)" by simp
    then show False using ns unfolding sinks by auto
  qed
  with new have "\<exists>new. snd s' = snd s @ new \<and> (\<forall>n. SinkDecl (from_state start_trans @ ''_O'') n \<notin> set new)"
    by blast
  moreover have "nonsink (fst s1) = {from_state start_trans @ ''_O''}"
    by (simp add: s1_def ext_of_def)
  moreover have "\<exists>Z. seen (fst s') = (from_state start_trans @ ''_O'') # Z"
    using sp(2) by (auto simp: origin_key_def)
  ultimately show ?thesis using ns by blast
qed

theorem origin_never_sink_witness:
  "''A_O'' \<in> nonsink (fst (Subgraph_start [''A''] (tr ''A'' ''INPUT_X'' ''B'' None) ex_trans False False (Subgraph_init, []))) \<and>
   (\<forall>n. SinkDecl ''A_O'' n \<notin> set (snd (Subgraph_start [''A''] (tr ''A'' ''INPUT_X'' ''B'' None) ex_trans False False (Subgraph_init, []))))"
  using origin_never_sink [where start = "[''A'']" and start_trans = "tr ''A'' ''INPUT_X'' ''B'' None"
      and transs = ex_trans and do_nop = False and do_unusual = False and s = "(Subgraph_init, [])"]
  by (auto simp: tr_def)



text \<open>
  Claim C2. In every call of \<^verbatim>\<open>Subgraph.start\<close>, an entry \<open>k\<close> of the final \<open>seen\<close> list
  gets a sink line exactly when no edge was printed with \<open>k\<close> as its source: \<open>k\<close> is neither
  the origin key, the source of the initial edge, nor the \<^verbatim>\<open>t[0]\<close> of a transition whose edge
  was printed during the expansion. The origin key ends in \<^verbatim>\<open>_O\<close>, so the origin and the
  plain node of the same state are different entries.
\<close>

theorem sink_iff_no_outgoing_edge:
  fixes s :: state and start start_trans transs do_nop do_unusual
  defines "s' \<equiv> Subgraph_start start start_trans transs do_nop do_unusual s"
  defines "c \<equiv> count (fst s) + 1"
  shows "\<exists>L new. snd s' = snd s @ new \<and>
           filter is_edge new = edge_of c True start_trans # map (edge_of c False) L \<and>
           (\<forall>k \<in> set (seen (fst s')).
              SinkDecl k c \<in> set new \<longleftrightarrow>
                k \<noteq> from_state start_trans @ ''_O'' \<and> k \<notin> from_state ` set L)"
proof -
  note sp = start_spec [where start = start and start_trans = start_trans and transs = transs
      and dn = do_nop and du = do_unusual and s = s, folded s'_def c_def]
  let ?L = "expanded start transs do_nop do_unusual (seen (fst s'))"
  from sp(5) obtain new where new: "snd s' = snd s @ new"
    and edges: "filter is_edge new = edge_of c True start_trans # map (edge_of c False) ?L"
    and sinks: "filter is_sink new =
           map (\<lambda>k. SinkDecl k c) (filter (\<lambda>k. k \<notin> nonsink (fst s')) (seen (fst s')))"
    by blast
  have "SinkDecl k c \<in> set new \<longleftrightarrow>
          k \<noteq> from_state start_trans @ ''_O'' \<and> k \<notin> from_state ` set ?L"
    if "k \<in> set (seen (fst s'))" for k
  proof -
    have "SinkDecl k c \<in> set new \<longleftrightarrow> SinkDecl k c \<in> set (filter is_sink new)" by simp
    also have "\<dots> \<longleftrightarrow> k \<notin> nonsink (fst s')"
      unfolding sinks using that by auto
    also have "\<dots> \<longleftrightarrow> k \<noteq> from_state start_trans @ ''_O'' \<and> k \<notin> from_state ` set ?L"
      by (simp add: sp(4) origin_key_def)
    finally show ?thesis .
  qed
  with new edges show ?thesis by blast
qed

theorem sink_iff_no_outgoing_edge_witness:
  "''C'' \<in> set (seen (fst ex_cluster)) \<and> SinkDecl ''C'' 1 \<in> set (snd ex_cluster) \<and>
   (\<exists>L. filter is_edge (snd ex_cluster)
           = edge_of 1 True (tr ''A'' ''INPUT_X'' ''B'' None) # map (edge_of 1 False) L \<and>
         ''C'' \<noteq> ''A_O'' \<and> ''C'' \<notin> from_state ` set L)"
proof -
  have c: "''C'' \<in> set (seen (fst ex_cluster))" "SinkDecl ''C'' 1 \<in> set (snd ex_cluster)"
    by (simp_all add: ex_cluster_value)
  from sink_iff_no_outgoing_edge [where start = "[''A'']" and start_trans = "tr ''A'' ''INPUT_X'' ''B'' None"
      and transs = ex_trans and do_nop = False and do_unusual = False and s = "(Subgraph_init, [])",
      folded ex_cluster_def]
  obtain L where "filter is_edge (snd ex_cluster)
           = edge_of 1 True (tr ''A'' ''INPUT_X'' ''B'' None) # map (edge_of 1 False) L"
    and "\<forall>k \<in> set (seen (fst ex_cluster)).
              SinkDecl k 1 \<in> set (snd ex_cluster) \<longleftrightarrow>
                k \<noteq> from_state (tr ''A'' ''INPUT_X'' ''B'' None) @ ''_O'' \<and> k \<notin> from_state ` set L"
    by (auto simp: Subgraph_init_def)
  with c show ?thesis by (auto simp: tr_def)
qed

text \<open>
  Claim C4. Whatever the start transition and the flags, a self-loop included, the first edge
  line printed by \<^verbatim>\<open>Subgraph.start\<close> is the initial edge, and that line is printed exactly
  once: the skip rules of the worklist loop are not applied to it, and no edge of the expansion
  is the same line, since only the initial edge has a source ending in \<^verbatim>\<open>_O\<close>.
\<close>

theorem initial_edge_once:
  fixes s :: state and start start_trans transs do_nop do_unusual
  defines "s' \<equiv> Subgraph_start start start_trans transs do_nop do_unusual s"
  defines "c \<equiv> count (fst s) + 1"
  shows "\<exists>new rest. snd s' = snd s @ new \<and>
           filter is_edge new = edge_of c True start_trans # rest \<and>
           length (filter (\<lambda>l. l = edge_of c True start_trans) new) = 1"
proof -
  note sp = start_spec [where start = start and start_trans = start_trans and transs = transs
      and dn = do_nop and du = do_unusual and s = s, folded s'_def c_def]
  let ?L = "expanded start transs do_nop do_unusual (seen (fst s'))"
  let ?e = "edge_of c True start_trans"
  from sp(5) obtain new where new: "snd s' = snd s @ new"
    and edges: "filter is_edge new = ?e # map (edge_of c False) ?L"
    by blast
  have "filter (\<lambda>l. l = ?e) new = filter (\<lambda>l. l = ?e) (filter is_edge new)"
    by (simp, rule filter_cong) auto
  also have "\<dots> = ?e # filter (\<lambda>l. l = ?e) (map (edge_of c False) ?L)"
    by (simp add: edges)
  also have "filter (\<lambda>l. l = ?e) (map (edge_of c False) ?L) = []"
    by (simp add: filter_empty_conv edge_of_first_neq)
  finally have "length (filter (\<lambda>l. l = ?e) new) = 1" by simp
  with new edges show ?thesis by blast
qed

theorem initial_edge_once_witness:
  "from_state (tr ''B'' ''INPUT_Y'' ''B'' None) = to_state (tr ''B'' ''INPUT_Y'' ''B'' None) \<and>
   length (filter (\<lambda>l. l = edge_of 1 True (tr ''B'' ''INPUT_Y'' ''B'' None)) (snd ex_loop_cluster)) = 1"
  using initial_edge_once [where start = "[''A'']" and start_trans = "tr ''B'' ''INPUT_Y'' ''B'' None"
      and transs = ex_trans and do_nop = False and do_unusual = False and s = "(Subgraph_init, [])",
      folded ex_loop_cluster_def]
  by (auto simp: Subgraph_init_def tr_def)

text \<open>
  Claim C9. The worklist loop is the total function \<open>while_cur\<close>: it returns for every
  transition list and every start transition. When it returns the scan index equals the length
  of \<open>seen\<close>, the list has no entry twice, and its length is at most the number of state names
  plus one for the origin entry; the destination of the start transition counts as a state name,
  which it is whenever the start transition leads to a state of the transition list.
\<close>

theorem worklist_terminates:
  fixes s :: state and start start_trans transs do_nop do_unusual
  defines "s1 \<equiv> Subgraph_out start_trans True
                  ((fst s)\<lparr>seen := [], nonsink := {}, count := count (fst s) + 1\<rparr>, snd s)"
  defines "r \<equiv> while_cur start transs do_nop do_unusual 1 s1"
  shows "fst r = length (seen (fst (snd r))) \<and>
         seen (fst (Subgraph_start start start_trans transs do_nop do_unusual s)) = seen (fst (snd r)) \<and>
         distinct (seen (fst (snd r))) \<and>
         length (seen (fst (snd r))) \<le> card (insert (to_state start_trans) (states transs)) + 1 \<and>
         (to_state start_trans \<in> states transs \<longrightarrow>
            length (seen (fst (snd r))) \<le> card (states transs) + 1)"
proof -
  define s' where "s' = Subgraph_start start start_trans transs do_nop do_unusual s"
  note sp = start_spec [where start = start and start_trans = start_trans and transs = transs
      and dn = do_nop and du = do_unusual and s = s, folded s'_def]
  let ?L = "expanded start transs do_nop do_unusual (seen (fst s'))"
  let ?U = "insert (to_state start_trans) (states transs)"
  have same: "seen (fst s') = seen (fst (snd r))"
    by (simp add: s'_def Subgraph_start_def Let_def r_def s1_def)
  have idx: "fst r = length (seen (fst s'))"
    using sp(6) by (simp add: r_def s1_def)
  from sp(2) obtain Z where Z: "seen (fst s') = origin_key start_trans # Z"
    and sub: "set Z \<subseteq> insert (to_state start_trans) (to_state ` set ?L)"
    by blast
  have "to_state ` set ?L \<subseteq> states transs"
    using set_expanded [of start transs do_nop do_unusual "seen (fst s')"]
    by (auto simp: states_eq)
  with sub have "set Z \<subseteq> ?U" by blast
  moreover have "finite ?U" by (simp add: finite_states)
  ultimately have "card (set Z) \<le> card ?U" by (simp add: card_mono)
  moreover have "distinct Z" using sp(3) Z by simp
  ultimately have "length Z \<le> card ?U" by (simp add: distinct_card)
  then have bound: "length (seen (fst s')) \<le> card ?U + 1" by (simp add: Z)
  have "to_state start_trans \<in> states transs \<longrightarrow> length (seen (fst s')) \<le> card (states transs) + 1"
    using bound by (auto simp: insert_absorb)
  with bound idx sp(3) same show ?thesis by (simp add: s'_def)
qed

theorem worklist_terminates_witness:
  "to_state (tr ''A'' ''INPUT_X'' ''B'' None) \<in> states ex_trans \<and>
   distinct (seen (fst ex_cluster)) \<and>
   length (seen (fst ex_cluster)) \<le> card (states ex_trans) + 1"
proof -
  have "to_state (tr ''A'' ''INPUT_X'' ''B'' None) \<in> states ex_trans"
    by (simp add: states_eq ex_trans_def tr_def)
  with worklist_terminates [where start = "[''A'']" and start_trans = "tr ''A'' ''INPUT_X'' ''B'' None"
      and transs = ex_trans and do_nop = False and do_unusual = False and s = "(Subgraph_init, [])",
      folded ex_cluster_def]
  show ?thesis by simp
qed

text \<open>
  Claim C3. A start state reached as a destination during the expansion is an entry of
  \<open>seen\<close>, no edge of the expansion leaves it, and a node line is printed for it: lemma
  \<open>start_state_boundary\<close> shows all three, the last one for a start state whose name is not
  the key of the origin node. When the name is that key, \<^verbatim>\<open>t[1] not in self.seen\<close> is false
  because of the origin's entry, and the code prints an edge into the start state but no node
  line for it. The table \<open>collide_lines\<close> is such an input: \<open>INIT_O\<close> is a start state, the
  cluster of \<open>INIT\<close> has the edge from \<open>X\<close> to \<open>INIT_O\<close>, and no line declares the node
  \<open>INIT_O_1\<close> or a node labelled \<open>INIT_O\<close>.
\<close>

theorem start_state_name_collision:
  "start_states collide_trans = [''INIT'', ''INIT_O''] \<and>
   seen (fst collide_cluster) = [''INIT_O'', ''X''] \<and>
   snd collide_cluster =
     [NodeDecl ''INIT_1_O'' ''INIT'', NodeDecl ''X_1'' ''X'',
      EdgeDecl ''INIT_1_O'' ''X_1'' ''<A'', EdgeDecl ''X_1'' ''INIT_O_1'' ''<B''] \<and>
   main collide_lines =
     Inr [GraphOpen, RankdirLR, ClusterOpen 1, StartLabel ''INIT'',
          NodeDecl ''INIT_1_O'' ''INIT'', NodeDecl ''X_1'' ''X'',
          EdgeDecl ''INIT_1_O'' ''X_1'' ''<A'', EdgeDecl ''X_1'' ''INIT_O_1'' ''<B'',
          ClusterClose, ClusterOpen 2, StartLabel ''INIT_O'', ClusterClose, GraphClose]"
  by (simp add: collide_start collide_cluster_value collide_main)

text \<open>
  Claim C5, amended. The node lines of a call of \<^verbatim>\<open>Subgraph.start\<close> are one line for the
  origin and one for every later entry of \<open>seen\<close>, in that order. A later entry \<open>k\<close> has the
  identifier \<open>k\<close>, underscore, counter, and the label \<open>k\<close>; a sink line names such an entry
  with the same identifier. The origin has the label \<^verbatim>\<open>t[0]\<close> of the start transition, which
  for an error path is the list of origin states joined by \<^verbatim>\<open>\\n\<close>, and the identifier
  \<^verbatim>\<open>t[0]\<close>, underscore, counter, \<^verbatim>\<open>_O\<close>, unless \<^verbatim>\<open>t[0]\<close> contains \<^verbatim>\<open>\\n\<close>: then the
  identifier is only underscore, counter, \<^verbatim>\<open>_O\<close>. The counterexample is the error path of two
  origin states, whose origin node has the identifier \<open>_1_O\<close>, without the state names.
\<close>

theorem node_identifiers:
  fixes s :: state and start start_trans transs do_nop do_unusual
  defines "s' \<equiv> Subgraph_start start start_trans transs do_nop do_unusual s"
  defines "c \<equiv> count (fst s) + 1"
  shows "\<exists>new. snd s' = snd s @ new \<and>
           filter is_node new =
             NodeDecl (if sublist bsn (from_state start_trans) then ''_'' @ str_nat c @ ''_O''
                       else from_state start_trans @ ''_'' @ str_nat c @ ''_O'')
                      (from_state start_trans)
               # map (\<lambda>k. NodeDecl (k @ ''_'' @ str_nat c) k) (tl (seen (fst s'))) \<and>
           (\<forall>k n. SinkDecl k n \<in> set new \<longrightarrow> n = c \<and> k \<in> set (tl (seen (fst s')))) \<and>
           from_state (error_start u key froms) = join bsn (sort froms)"
proof -
  note sp = start_spec [where start = start and start_trans = start_trans and transs = transs
      and dn = do_nop and du = do_unusual and s = s, folded s'_def c_def]
  from sp(5) obtain new where new: "snd s' = snd s @ new"
    and nodes: "filter is_node new =
             NodeDecl (src_id c True (from_state start_trans)) (from_state start_trans)
               # map (node_decl c) (tl (seen (fst s')))"
    and sinks: "filter is_sink new =
             map (\<lambda>k. SinkDecl k c) (filter (\<lambda>k. k \<notin> nonsink (fst s')) (seen (fst s')))"
    by blast
  from sp(2) obtain Z where Z: "seen (fst s') = origin_key start_trans # Z" by blast
  have origin: "origin_key start_trans \<in> nonsink (fst s')" by (simp add: sp(4))
  have "n = c \<and> k \<in> set (tl (seen (fst s')))" if "SinkDecl k n \<in> set new" for k n
  proof -
    from that have "SinkDecl k n \<in> set (filter is_sink new)" by simp
    then have "n = c" "k \<in> set (seen (fst s'))" "k \<notin> nonsink (fst s')"
      unfolding sinks by auto
    with origin Z show ?thesis by auto
  qed
  moreover have "filter is_node new =
             NodeDecl (if sublist bsn (from_state start_trans) then ''_'' @ str_nat c @ ''_O''
                       else from_state start_trans @ ''_'' @ str_nat c @ ''_O'')
                      (from_state start_trans)
               # map (\<lambda>k. NodeDecl (k @ ''_'' @ str_nat c) k) (tl (seen (fst s')))"
    unfolding nodes by (simp add: src_id_eq ext_of_def node_decl_def dst_id_def)
  moreover have "from_state (error_start u key froms) = join bsn (sort froms)"
    by (simp add: error_start_def)
  ultimately show ?thesis using new by blast
qed

theorem node_identifiers_witness:
  "SinkDecl ''CLOSED'' 1 \<in> set (snd err_cluster) \<and> ''CLOSED'' \<in> set (tl (seen (fst err_cluster))) \<and>
   filter is_node (snd err_cluster) =
     NodeDecl (if sublist bsn (''X'' @ bsn @ ''Y'') then ''_'' @ str_nat 1 @ ''_O''
               else (''X'' @ bsn @ ''Y'') @ ''_'' @ str_nat 1 @ ''_O'')
              (''X'' @ bsn @ ''Y'')
       # map (\<lambda>k. NodeDecl (k @ ''_'' @ str_nat 1) k) (tl (seen (fst err_cluster)))"
proof -
  have sink: "SinkDecl ''CLOSED'' 1 \<in> set (snd err_cluster)"
    by (simp add: err_cluster_value)
  have lbl: "from_state (error_start ''PKT_ERROR'' (''CLOSED'', None) [''X'', ''Y'']) = ''X'' @ bsn @ ''Y''"
    by (simp add: error_start_def)
  from node_identifiers [where start = "[]"
      and start_trans = "error_start ''PKT_ERROR'' (''CLOSED'', None) [''X'', ''Y'']"
      and transs = err_trans and do_nop = False and do_unusual = False and s = "(Subgraph_init, [])",
      folded err_cluster_def]
  have nodes: "filter is_node (snd err_cluster) =
     NodeDecl (if sublist bsn (''X'' @ bsn @ ''Y'') then ''_'' @ str_nat 1 @ ''_O''
               else (''X'' @ bsn @ ''Y'') @ ''_'' @ str_nat 1 @ ''_O'')
              (''X'' @ bsn @ ''Y'')
       # map (\<lambda>k. NodeDecl (k @ ''_'' @ str_nat 1) k) (tl (seen (fst err_cluster)))"
    and sinks: "\<forall>k n. SinkDecl k n \<in> set (snd err_cluster) \<longrightarrow>
            n = 1 \<and> k \<in> set (tl (seen (fst err_cluster)))"
    unfolding lbl by (auto simp: Subgraph_init_def)
  from sinks sink have "''CLOSED'' \<in> set (tl (seen (fst err_cluster)))" by blast
  with sink nodes show ?thesis by blast
qed

theorem node_identifier_counterexample:
  "from_state (error_start ''PKT_ERROR'' (''CLOSED'', None) [''X'', ''Y'']) = ''X'' @ bsn @ ''Y'' \<and>
   snd err_cluster =
     [NodeDecl ''_1_O'' (''X'' @ bsn @ ''Y''), NodeDecl ''CLOSED_1'' ''CLOSED'',
      EdgeDecl ''_1_O'' ''CLOSED_1'' ''<PKT_ERROR'', SinkDecl ''CLOSED'' 1] \<and>
   ''_1_O'' \<noteq> (''X'' @ bsn @ ''Y'') @ ''_'' @ str_nat 1 @ ''_O'' \<and>
   ''_1_O'' \<noteq> (''X'' @ bsn @ ''Y'') @ str_nat 1 @ ''_O''"
  by (simp add: err_cluster_value error_start_def)

section \<open>Properties of the table parser\<close>

text \<open>
  Claim C7, amended. A line that matches neither pattern, blank or not, is reported by exactly
  one diagnostic, and parsing goes on with the lines after it: the loop is in the state it had
  before the line, with that one diagnostic added. The line adds no transition and does not
  change the base state, so the transitions and the base state are those of the file without the
  line; the diagnostics of the whole file are one for each unmatched line, in order. The
  counterexample is the blank line, which matches neither pattern and is reported.
\<close>

theorem unmatched_line_reported:
  assumes "re_state_match l = None" and "re_trans_match l = None"
  shows "parse_lines (ls1 @ l # ls2) b ts pr =
           (case parse_lines ls1 b ts pr of
              (b1, ts1, pr1) \<Rightarrow> parse_lines ls2 b1 ts1 (pr1 @ [ParseError l])) \<and>
         fst (parse_lines (ls1 @ l # ls2) b ts pr) = fst (parse_lines (ls1 @ ls2) b ts pr) \<and>
         fst (snd (parse_lines (ls1 @ l # ls2) b ts pr)) = fst (snd (parse_lines (ls1 @ ls2) b ts pr)) \<and>
         snd (snd (parse_lines (ls1 @ l # ls2) b ts pr)) =
           pr @ map ParseError (filter (\<lambda>l. re_state_match l = None \<and> re_trans_match l = None) ls1)
              @ [ParseError l]
              @ map ParseError (filter (\<lambda>l. re_state_match l = None \<and> re_trans_match l = None) ls2)"
proof -
  obtain b1 ts1 pr1 where p1: "parse_lines ls1 b ts pr = (b1, ts1, pr1)"
    by (cases "parse_lines ls1 b ts pr") auto
  have un: "unmatched l" using assms by (simp add: unmatched_def)
  have step: "parse_lines (ls1 @ l # ls2) b ts pr = parse_lines ls2 b1 ts1 (pr1 @ [ParseError l])"
    using assms by (simp add: parse_lines_append p1)
  have without: "parse_lines (ls1 @ ls2) b ts pr = parse_lines ls2 b1 ts1 pr1"
    by (simp add: parse_lines_append p1)
  have "fst (parse_lines (ls1 @ l # ls2) b ts pr) = fst (parse_lines (ls1 @ ls2) b ts pr)"
    unfolding step without by (simp add: fst_parse_lines)
  moreover have "fst (snd (parse_lines (ls1 @ l # ls2) b ts pr)) = fst (snd (parse_lines (ls1 @ ls2) b ts pr))"
    unfolding step without by (rule trans_parse_lines_printed)
  moreover have "snd (snd (parse_lines (ls1 @ l # ls2) b ts pr)) =
           pr @ map ParseError (filter unmatched ls1) @ [ParseError l]
              @ map ParseError (filter unmatched ls2)"
    using un by (simp add: printed_parse_lines)
  ultimately show ?thesis using step p1 by (simp add: unmatched_def [abs_def])
qed

theorem unmatched_line_reported_witness:
  "re_state_match ''   garbage line'' = None \<and> re_trans_match ''   garbage line'' = None \<and>
   parse_lines ([''A:\<newline>''] @ ''   garbage line'' # [''  X -> B\<newline>'']) None [] [] =
     (Some ''A'', [(Some ''A'', ''B'', ''X'', None)], [ParseError ''   garbage line''])"
proof -
  have a: "re_state_match ''   garbage line'' = None" by code_simp
  have b: "re_trans_match ''   garbage line'' = None" by code_simp
  have c: "parse_lines [''A:\<newline>''] None [] [] = (Some ''A'', [], [])" by code_simp
  have d: "parse_lines [''  X -> B\<newline>''] (Some ''A'') [] [ParseError ''   garbage line'']
             = (Some ''A'', [(Some ''A'', ''B'', ''X'', None)], [ParseError ''   garbage line''])"
    by code_simp
  have "parse_lines ([''A:\<newline>''] @ ''   garbage line'' # [''  X -> B\<newline>'']) None [] [] =
      (case parse_lines [''A:\<newline>''] None [] [] of
         (b1, ts1, pr1) \<Rightarrow> parse_lines [''  X -> B\<newline>''] b1 ts1 (pr1 @ [ParseError ''   garbage line'']))"
    using unmatched_line_reported [OF a b, of "[''A:\<newline>'']" "[''  X -> B\<newline>'']" None "[]" "[]"]
    by (rule conjunct1)
  then have "parse_lines ([''A:\<newline>''] @ ''   garbage line'' # [''  X -> B\<newline>'']) None [] [] =
     (Some ''A'', [(Some ''A'', ''B'', ''X'', None)], [ParseError ''   garbage line''])"
    by (simp only: c prod.case append_Nil d)
  with a b show ?thesis by blast
qed

theorem blank_line_counterexample:
  "list_all is_space ''\<newline>'' \<and>
   parse_lines [''\<newline>''] None [] [] = (None, [], [ParseError ''\<newline>''])"
  by code_simp

text \<open>
  Every tuple that the parser appends comes from one transition line of the file: its new state
  and its input are groups 2 and 1 of the match and are not empty, and its output is present
  exactly when the line has a parenthesis, and is then the non-empty name between the
  parentheses. Its first entry is the non-empty name of a state line before that line when
  there is one, and \<^verbatim>\<open>None\<close> when no state line comes before it.
\<close>

lemma parsed_transition_fields:
  assumes "(b, n, i, ou) \<in> set (fst (snd (parse_lines ls None [] [])))"
  shows "n \<noteq> [] \<and> i \<noteq> [] \<and>
         (\<exists>ls1 l ls2. ls = ls1 @ l # ls2 \<and> re_state_match l = None \<and>
            re_trans_match l = Some (i, n, ou) \<and>
            ((ou \<noteq> None) = (CHR ''('' \<in> set l)) \<and>
            (\<forall>p. ou = Some p \<longrightarrow> p \<noteq> [] \<and> sublist (''('' @ p @ '')'') l) \<and>
            (case b of
               None \<Rightarrow> \<forall>l'\<in>set ls1. re_state_match l' = None
             | Some f \<Rightarrow> f \<noteq> [] \<and> (\<exists>l'\<in>set ls1. re_state_match l' = Some f)))"
proof -
  from parse_lines_mem [OF assms] obtain ls1 l ls2 i' n' ou' where
    ls: "ls = ls1 @ l # ls2" and st: "re_state_match l = None"
    and m: "re_trans_match l = Some (i', n', ou')"
    and x: "(b, n, i, ou) = (base_after None ls1, n', i', ou')"
    by auto
  from x have eq: "b = base_after None ls1" "n = n'" "i = i'" "ou = ou'" by simp_all
  note f = re_trans_match_fields [OF m [folded eq]]
  have base: "case b of
               None \<Rightarrow> \<forall>l'\<in>set ls1. re_state_match l' = None
             | Some f \<Rightarrow> f \<noteq> [] \<and> (\<exists>l'\<in>set ls1. re_state_match l' = Some f)"
  proof (cases b)
    case None
    with eq(1) have "base_after None ls1 = None" by simp
    then have "\<forall>l'\<in>set ls1. re_state_match l' = None" by (simp add: base_after_None)
    with None show ?thesis by simp
  next
    case (Some g)
    with eq(1) have "base_after None ls1 = Some g" by simp
    from base_after_Some [OF this] obtain l' where l': "l' \<in> set ls1" "re_state_match l' = Some g"
      by auto
    from re_state_match_SomeD [OF l'(2)] have "g \<noteq> []" by simp
    with l' Some show ?thesis by auto
  qed
  from f(1,2) have "n \<noteq> []" "i \<noteq> []" by simp_all
  moreover have "ls = ls1 @ l # ls2 \<and> re_state_match l = None \<and>
            re_trans_match l = Some (i, n, ou) \<and>
            ((ou \<noteq> None) = (CHR ''('' \<in> set l)) \<and>
            (\<forall>p. ou = Some p \<longrightarrow> p \<noteq> [] \<and> sublist (''('' @ p @ '')'') l) \<and>
            (case b of
               None \<Rightarrow> \<forall>l'\<in>set ls1. re_state_match l' = None
             | Some f \<Rightarrow> f \<noteq> [] \<and> (\<exists>l'\<in>set ls1. re_state_match l' = Some f))"
    using ls st m eq f(3,4) base by simp
  ultimately show ?thesis by blast
qed

lemma parsed_transition_fields_example:
  "(Some ''INIT'', ''X'', ''A'', Some ''PKT_OPEN'') \<in> set (fst (snd (parse_lines ex_lines None [] []))) \<and>
   ''X'' \<noteq> [] \<and> ''A'' \<noteq> [] \<and>
   (\<exists>ls1 l ls2. ex_lines = ls1 @ l # ls2 \<and> re_state_match l = None \<and>
      re_trans_match l = Some (''A'', ''X'', Some ''PKT_OPEN'') \<and>
      ((Some ''PKT_OPEN'' \<noteq> None) = (CHR ''('' \<in> set l)) \<and>
      (\<forall>p. Some ''PKT_OPEN'' = Some p \<longrightarrow> p \<noteq> [] \<and> sublist (''('' @ p @ '')'') l) \<and>
      (case Some ''INIT'' of
         None \<Rightarrow> \<forall>l'\<in>set ls1. re_state_match l' = None
       | Some f \<Rightarrow> f \<noteq> [] \<and> (\<exists>l'\<in>set ls1. re_state_match l' = Some f)))"
proof -
  have h: "(Some ''INIT'', ''X'', ''A'', Some ''PKT_OPEN'') \<in> set (fst (snd (parse_lines ex_lines None [] [])))"
    by (simp add: ex_lines_value)
  from parsed_transition_fields [OF h] h show ?thesis by blast
qed

text \<open>
  Claim C8. Every tuple of the parser has a from-state, a new state and an input that are
  present and not empty, and an output exactly when its line names one. For the new state, the
  input and the output this holds of every file, by \<open>parsed_transition_fields\<close>. For the
  from-state the code fails on a file whose first transition line comes before any state line:
  line 23 appends \<^verbatim>\<open>base_state\<close>, still \<^verbatim>\<open>None\<close>, unchecked, so the tuple has no from-state,
  and line 32 then needs a string there and raises \<^verbatim>\<open>TypeError\<close>. The theorem runs the
  parser and the program on such a file of one line.
\<close>

theorem headless_transition_type_error:
  "parse_lines [''   A -> B\<newline>''] None [] [] = (None, [(None, ''B'', ''A'', None)], []) \<and>
   main [''   A -> B\<newline>''] = Inl (TypeError, [])"
  by code_simp

section \<open>Properties of the top level\<close>

text \<open>
  Claim C6, amended. For an unusual input \<open>u\<close>, the dictionary \<^verbatim>\<open>res\<close> maps every pair of
  resulting state and output that a transition on \<open>u\<close> reaches to the list of the from-states
  of those transitions, one entry for each transition, so that a state is listed as often as the
  table repeats its transition; other pairs are not keys. When no transition has input \<open>u\<close>
  the body of the loop prints nothing and leaves the cluster counter as it is. Otherwise it
  prints one cluster, with one call of \<^verbatim>\<open>Subgraph.start\<close> for each key in sorted order, on
  the start transition from the origins sorted and joined by \<^verbatim>\<open>\\n\<close>; the first line of
  that call declares the origin node with that label. The counterexample is a table holding a
  transition twice: the set of from-states is \<open>X\<close> alone, the label is \<open>X\<close> twice.
\<close>

theorem error_path_groups:
  fixes start transs u cs k
  defines "keys \<equiv> sorted_list_of_set (group_key ` {t \<in> set transs. inp t = u})"
  shows "map_of (for_res u transs []) k =
           (if origins u k transs = [] then None else Some (origins u k transs)) \<and>
         error_path start transs u cs =
           (if \<forall>t\<in>set transs. inp t \<noteq> u then Inr cs
            else Inr (fst cs + 1,
                   (\<lambda>s. (fst s, snd s @ [ClusterClose]))
                     (fold (\<lambda>k. Subgraph_start start (group_start u transs k) transs False False) keys
                        (fst (snd cs),
                         snd (snd cs) @ [ClusterOpen (fst cs + 1), ErrorPathLabel u, RankdirTB])))) \<and>
         (\<forall>s. \<exists>rest. snd (Subgraph_start start (group_start u transs k) transs False False s) =
                 snd s @ NodeDecl (src_id (count (fst s) + 1) True (join bsn (sort (origins u k transs))))
                                  (join bsn (sort (origins u k transs))) # rest)"
proof -
  let ?res = "for_res u transs []"
  have lookup: "map_of ?res k' =
           (if origins u k' transs = [] then None else Some (origins u k' transs))" for k'
    by (simp add: map_of_for_res)
  have fin: "finite (group_key ` {t \<in> set transs. inp t = u})" by simp
  have "\<forall>k'\<in>set keys. map_of ?res k' = Some (origins u k' transs)"
    using origins_of_key [of _ transs u] fin by (simp add: lookup keys_def)
  then have fk: "for_keys start transs u ?res keys s =
      Inr (fold (\<lambda>k. Subgraph_start start (group_start u transs k) transs False False) keys s)" for s
    by (simp add: for_keys_fold [where f = "\<lambda>k. origins u k transs"] error_start_origins)
  have path: "error_path start transs u cs =
           (if \<forall>t\<in>set transs. inp t \<noteq> u then Inr cs
            else Inr (fst cs + 1,
                   (\<lambda>s. (fst s, snd s @ [ClusterClose]))
                     (fold (\<lambda>k. Subgraph_start start (group_start u transs k) transs False False) keys
                        (fst (snd cs),
                         snd (snd cs) @ [ClusterOpen (fst cs + 1), ErrorPathLabel u, RankdirTB]))))"
    unfolding error_path_def Let_def res_keys_sorted res_empty keys_def [symmetric]
    by (simp add: fk)
  have first: "\<exists>rest. snd (Subgraph_start start (group_start u transs k) transs False False s) =
                 snd s @ NodeDecl (src_id (count (fst s) + 1) True (join bsn (sort (origins u k transs))))
                                  (join bsn (sort (origins u k transs))) # rest" for s
    using start_spec(8) [where start = start and start_trans = "group_start u transs k"
        and transs = transs and dn = False and du = False and s = s]
    by (simp add: group_start_def)
  from lookup [of k] path first show ?thesis by blast
qed

theorem error_path_groups_witness:
  "map_of (for_res ''PKT_ERROR'' err_trans []) (''CLOSED'', None) = Some [''X'', ''Y''] \<and>
   ''CMD_CLOSE'' \<notin> set (map inp err_trans) \<and>
   error_path [] err_trans ''CMD_CLOSE'' (0, (Subgraph_init, [])) = Inr (0, (Subgraph_init, [])) \<and>
   map_sum id (snd \<circ> snd) (error_path [] err_trans ''PKT_ERROR'' (0, (Subgraph_init, []))) =
     Inr [ClusterOpen 1, ErrorPathLabel ''PKT_ERROR'', RankdirTB,
          NodeDecl ''_1_O'' (''X'' @ bsn @ ''Y''), NodeDecl ''CLOSED_1'' ''CLOSED'',
          EdgeDecl ''_1_O'' ''CLOSED_1'' ''<PKT_ERROR'', SinkDecl ''CLOSED'' 1, ClusterClose]"
proof -
  have o: "origins ''PKT_ERROR'' (''CLOSED'', None) err_trans = [''X'', ''Y'']"
    by (simp add: origins_def err_trans_def tr_def group_key_def)
  have none: "\<forall>t\<in>set err_trans. inp t \<noteq> ''CMD_CLOSE''"
    by (simp add: err_trans_def tr_def)
  from error_path_groups [where u = "''PKT_ERROR''" and transs = err_trans and k = "(''CLOSED'', None)"]
  have "map_of (for_res ''PKT_ERROR'' err_trans []) (''CLOSED'', None) = Some [''X'', ''Y'']"
    by (simp add: o)
  moreover from error_path_groups [where u = "''CMD_CLOSE''" and transs = err_trans
      and start = "[]" and cs = "(0, (Subgraph_init, []))"] none
  have "error_path [] err_trans ''CMD_CLOSE'' (0, (Subgraph_init, [])) = Inr (0, (Subgraph_init, []))"
    by simp
  moreover have "''CMD_CLOSE'' \<notin> set (map inp err_trans)"
    using none by auto
  ultimately show ?thesis using err_path_value by blast
qed

theorem duplicate_origin_counterexample:
  "set (map from_state dup_trans) = {''X''} \<and>
   join bsn (sorted_list_of_set (set (map from_state dup_trans))) = ''X'' \<and>
   map_of (for_res ''PKT_ERROR'' dup_trans []) (''CLOSED'', None) = Some [''X'', ''X''] \<and>
   map_sum id (snd \<circ> snd) (error_path [] dup_trans ''PKT_ERROR'' (0, (Subgraph_init, []))) =
     Inr [ClusterOpen 1, ErrorPathLabel ''PKT_ERROR'', RankdirTB,
          NodeDecl ''_1_O'' (''X'' @ bsn @ ''X''), NodeDecl ''CLOSED_1'' ''CLOSED'',
          EdgeDecl ''_1_O'' ''CLOSED_1'' ''<PKT_ERROR'', SinkDecl ''CLOSED'' 1, ClusterClose]"
  using dup_names_value dup_res_value dup_path_value by blast

end
